theory Spec2Isabelle
  imports Complex_Main
begin

section \<open>Pattern construction and sequence matching of FOAM (build\_optimised\_pattern.py)\<close>

text \<open>
  The development embeds the selection functions of \<^verbatim>\<open>src/foam/build_optimised_pattern.py\<close>:
  \<^verbatim>\<open>puls_series_from_given_puls\<close>, \<^verbatim>\<open>chisq_longest_sequence\<close>,
  \<^verbatim>\<open>rescale_rotation_and_select_theoretical_pattern\<close> and
  \<^verbatim>\<open>theoretical_pattern_from_dfrow\<close>.

  Conventions of the embedding.
  \<^item> A numpy array or Python list of floats is a \<open>real list\<close>; the radial orders are an
    \<open>int list\<close>. Floating-point numbers are idealised as reals: rounding, infinities and
    NaN are not modelled. The source divides by the observed errors and takes reciprocals
    of frequencies, so the model describes the source only for nonzero divisors (numpy
    yields inf or nan for a zero divisor, HOL yields 0).
  \<^item> Every exception the source can raise is a value \<open>Inl e\<close> of the result type
    \<open>error + 'a\<close>; a normal return is \<open>Inr v\<close>.
  \<^item> A \<^verbatim>\<open>for\<close> loop is a recursive function over the list it iterates, carrying the
    variables the loop body assigns.
\<close>

subsection \<open>Exceptions and the numpy and builtin operations the source uses\<close>

datatype error = IndexError | ValueError | TypeError | AttributeError | KeyError | SystemExit

text \<open>The builtins \<^verbatim>\<open>min\<close> and \<^verbatim>\<open>max\<close>: ValueError on an empty sequence.\<close>

fun py_min :: "real list \<Rightarrow> error + real" where
  "py_min [] = Inl ValueError"
| "py_min (x # xs) = Inr (fold min xs x)"

fun py_max :: "real list \<Rightarrow> error + real" where
  "py_max [] = Inl ValueError"
| "py_max (x # xs) = Inr (fold max xs x)"

text \<open>\<^verbatim>\<open>np.where(cond)[0]\<close> on a one-dimensional array: the indices, ascending, at which
  the condition holds.\<close>

definition np_where :: "('a \<Rightarrow> bool) \<Rightarrow> 'a list \<Rightarrow> nat list" where
  "np_where cond xs = filter (\<lambda>i. cond (xs ! i)) [0..<length xs]"

text \<open>\<^verbatim>\<open>np.where(xs == v)[0][0]\<close>: the first index holding \<open>v\<close>, IndexError when there
  is none.\<close>

definition first_index :: "'a list \<Rightarrow> 'a \<Rightarrow> error + nat" where
  "first_index xs v = (case np_where (\<lambda>x. x = v) xs of [] \<Rightarrow> Inl IndexError | i # _ \<Rightarrow> Inr i)"

text \<open>Elementwise arithmetic of two one-dimensional numpy arrays with broadcasting: equal
  lengths combine pointwise, a one-element array is stretched, any other pair of shapes
  raises ValueError.\<close>

definition np_broadcast :: "(real \<Rightarrow> real \<Rightarrow> real) \<Rightarrow> real list \<Rightarrow> real list \<Rightarrow> error + real list" where
  "np_broadcast f xs ys =
     (if length xs = length ys then Inr (map (\<lambda>(x, y). f x y) (zip xs ys))
      else if length ys = 1 then Inr (map (\<lambda>x. f x (ys ! 0)) xs)
      else if length xs = 1 then Inr (map (\<lambda>y. f (xs ! 0) y) ys)
      else Inl ValueError)"

text \<open>Running a list of fallible computations in order; the first exception ends the run.\<close>

fun collect :: "(error + 'a) list \<Rightarrow> error + 'a list" where
  "collect [] = Inr []"
| "collect (r # rs) =
     (case r of Inl e \<Rightarrow> Inl e
      | Inr v \<Rightarrow> (case collect rs of Inl e \<Rightarrow> Inl e | Inr vs \<Rightarrow> Inr (v # vs)))"

subsection \<open>Strategy A: \<^verbatim>\<open>puls_series_from_given_puls\<close>\<close>

text \<open>Lines 320-336 and 347 (the plotting branch, taken only with \<^verbatim>\<open>plot=True\<close>, is left
  out). \<open>nth_obs\<close> and \<open>index\<close> are array positions, hence natural numbers; their
  difference is taken in the integers, as in the source. In the first branch the number of
  leading sentinels is \<^verbatim>\<open>abs(index-nth_obs)\<close> and the slice starts at 0; in the second branch
  the slice bounds are not negative, so no index wraps around. \<^verbatim>\<open>min(diff)\<close> raises ValueError
  on an empty theoretical array, and \<^verbatim>\<open>np.where(...)[0][0]\<close> raises IndexError when the value
  to build from is not among the observations.\<close>

definition puls_series_from_given_puls :: "real list \<Rightarrow> real list \<Rightarrow> real \<Rightarrow> error + real list" where
  "puls_series_from_given_puls TheoIn Obs Obs_to_build_from =
     (case first_index Obs Obs_to_build_from of
        Inl e \<Rightarrow> Inl e
      | Inr nth_obs \<Rightarrow>
          (let diff = map (\<lambda>t. \<bar>t - Obs_to_build_from\<bar>) TheoIn in
           case py_min diff of
             Inl e \<Rightarrow> Inl e
           | Inr m \<Rightarrow>
               (case first_index diff m of
                  Inl e \<Rightarrow> Inl e
                | Inr index \<Rightarrow>
                    (let upper = index + (length Obs - nth_obs);
                         Theo_sequence =
                           (if int index - int nth_obs < 0
                            then replicate (nat \<bar>int index - int nth_obs\<bar>) (- 1) @ take upper TheoIn
                            else drop (index - nth_obs) (take upper TheoIn))
                     in Inr (if upper > length TheoIn
                             then Theo_sequence @ replicate (upper - length TheoIn) (- 1)
                             else Theo_sequence)))))"

subsection \<open>Strategy B: \<^verbatim>\<open>chisq_longest_sequence\<close>\<close>

text \<open>One row of \<^verbatim>\<open>pairs_orders\<close>:
  \<^verbatim>\<open>[period, best_match, int(best_order), chisqs[min_ind][0]]\<close>.\<close>

record pair_order =
  obs_period :: real
  best_match :: real
  best_order :: int
  best_chisq :: real

text \<open>Line 381: the chi-square of one observed period against every theoretical period.\<close>

definition chisqs_of :: "real list \<Rightarrow> real \<Rightarrow> real \<Rightarrow> real list" where
  "chisqs_of tperiods period operiod_error =
     map (\<lambda>tperiod. ((period - tperiod) / operiod_error) ^ 2) tperiods"

text \<open>Lines 381-389, the body of the first loop. \<^verbatim>\<open>min(chisqs)\<close> raises ValueError on an
  empty theoretical list; \<^verbatim>\<open>orders[min_ind]\<close> indexes \<open>orders\<close> with every minimising index and
  raises IndexError when one of them is out of range.\<close>

definition best_pair :: "real list \<Rightarrow> int list \<Rightarrow> real \<Rightarrow> real \<Rightarrow> error + pair_order" where
  "best_pair tperiods orders period operiod_error =
     (let chisqs = chisqs_of tperiods period operiod_error in
      case py_min chisqs of
        Inl e \<Rightarrow> Inl e
      | Inr m \<Rightarrow>
          (let min_ind = np_where (\<lambda>c. c = m) chisqs in
           case min_ind of
             [] \<Rightarrow> Inl IndexError
           | k # _ \<Rightarrow>
               if list_ex (\<lambda>i. length orders \<le> i) min_ind then Inl IndexError
               else Inr \<lparr>obs_period = period, best_match = tperiods ! k,
                         best_order = orders ! k, best_chisq = chisqs ! k\<rparr>))"

text \<open>Lines 378-391, the loop \<^verbatim>\<open>for ii,period in enumerate(operiods)\<close>; the argument
  \<open>ii\<close> is the running index. \<^verbatim>\<open>operiods_errors[ii]\<close> is read inside the comprehension over
  \<open>tperiods\<close>, so a missing error raises IndexError only when \<open>tperiods\<close> is not empty.\<close>

fun best_matches :: "real list \<Rightarrow> int list \<Rightarrow> real list \<Rightarrow> nat \<Rightarrow> real list \<Rightarrow> error + pair_order list" where
  "best_matches tperiods orders operiods_errors ii [] = Inr []"
| "best_matches tperiods orders operiods_errors ii (period # rest) =
     (if tperiods \<noteq> [] \<and> length operiods_errors \<le> ii then Inl IndexError
      else case best_pair tperiods orders period (operiods_errors ! ii) of
             Inl e \<Rightarrow> Inl e
           | Inr p \<Rightarrow>
               (case best_matches tperiods orders operiods_errors (Suc ii) rest of
                  Inl e \<Rightarrow> Inl e
                | Inr ps \<Rightarrow> Inr (p # ps)))"

text \<open>Lines 403-406: the step between consecutive radial orders.\<close>

definition increase_or_decrease :: "int list \<Rightarrow> error + int" where
  "increase_or_decrease orders =
     (if length orders < 2 then Inl IndexError
      else Inr (if orders ! 1 = orders ! 0 - 1 then - 1 else 1))"

text \<open>Lines 412-424, the loop \<^verbatim>\<open>for ii,sett in enumerate(pairs_orders[:-1])\<close>. The list
  argument holds \<open>sett\<close>, then \<^verbatim>\<open>pairs_orders[ii+1]\<close>, then the rows after it; the loop body
  runs while a next row exists, and \<^verbatim>\<open>ii==lp-1\<close> holds when no row follows the next one.
  \<open>current\<close> and \<open>sequences\<close> are the two lists the body assigns.\<close>

fun scan_runs :: "int \<Rightarrow> pair_order list \<Rightarrow> pair_order list \<Rightarrow> pair_order list list \<Rightarrow> pair_order list list" where
  "scan_runs incr (sett # nxt # rest) current sequences =
     (let (current1, sequences1) =
            (if \<bar>best_order sett\<bar> = \<bar>best_order nxt\<bar> + incr
             then (current @ [sett], sequences)
             else ([], sequences @ [current @ [sett]]));
          (current2, sequences2) =
            (if rest = []
             then ([], sequences1 @ [current1 @ [sett]])
             else (current1, sequences1))
      in scan_runs incr (nxt # rest) current2 sequences2)"
| "scan_runs incr _ current sequences = sequences"

text \<open>Line 434: the score of a run, \<^verbatim>\<open>np.sum(sequences[ii][:,-1])/len(sequences[ii])\<close>.\<close>

definition score :: "pair_order list \<Rightarrow> real" where
  "score s = sum_list (map best_chisq s) / real (length s)"

text \<open>Lines 425-436: the choice of \<open>lseq\<close>. \<^verbatim>\<open>max(len_list)\<close> raises ValueError when there
  is no run.\<close>

definition select_run :: "pair_order list list \<Rightarrow> error + pair_order list" where
  "select_run sequences =
     (let len_list = map length sequences in
      case py_max (map real len_list) of
        Inl e \<Rightarrow> Inl e
      | Inr m \<Rightarrow>
          (let longest = np_where (\<lambda>l. real l = m) len_list in
           if length longest = 1 then Inr (sequences ! (longest ! 0))
           else
             (let scores = map (\<lambda>ii. score (sequences ! ii)) longest in
              case py_min scores of
                Inl e \<Rightarrow> Inl e
              | Inr s \<Rightarrow>
                  (case first_index scores s of
                     Inl e \<Rightarrow> Inl e
                   | Inr min_score \<Rightarrow> Inr (sequences ! (longest ! min_score))))))"

text \<open>Lines 448-459, the body of the alignment loop at observed index \<open>i\<close>.\<close>

definition aligned_entry :: "real list \<Rightarrow> int list \<Rightarrow> int \<Rightarrow> nat \<Rightarrow> error + (real \<times> int)" where
  "aligned_entry tperiods orders thr_ind_start i =
     (let thr_ind_current = thr_ind_start + int i in
      if thr_ind_current < 0 then Inr (- 1, - 1)
      else if thr_ind_current \<ge> int (length tperiods) then Inr (- 1, - 1)
      else if length orders \<le> nat thr_ind_current then Inl IndexError
      else Inr (tperiods ! nat thr_ind_current, orders ! nat thr_ind_current))"

text \<open>Lines 447-459: \<^verbatim>\<open>for i,oper in enumerate(operiods)\<close>.\<close>

definition align :: "real list \<Rightarrow> int list \<Rightarrow> int \<Rightarrow> nat \<Rightarrow> error + (real \<times> int) list" where
  "align tperiods orders thr_ind_start n =
     collect (map (aligned_entry tperiods orders thr_ind_start) [0..<n])"

text \<open>Modelled from the spec: \<^verbatim>\<open>generate_spacing_series\<close> of \<^verbatim>\<open>foam/functions_for_gyre.py\<close>,
  which is not among the sources. Section 4.1 of the specification: from N periods the N-1
  consecutive differences \<^verbatim>\<open>period[i+1] - period[i]\<close> and, if errors are given, the
  propagated errors \<^verbatim>\<open>sqrt(err[i]^2 + err[i+1]^2)\<close>.\<close>

definition generate_spacing_series :: "real list \<Rightarrow> real list option \<Rightarrow> real list \<times> real list option" where
  "generate_spacing_series periods errors =
     (map (\<lambda>(p, q). q - p) (zip periods (tl periods)),
      map_option (\<lambda>errs. map (\<lambda>(e, f). sqrt (e ^ 2 + f ^ 2)) (zip errs (tl errs))) errors)"

text \<open>Lines 464-471: the quality score of the aligned sequence.\<close>

definition series_chi2_of :: "real list \<Rightarrow> real list \<Rightarrow> real list \<Rightarrow> error + real" where
  "series_chi2_of operiods operiods_errors final_theoretical_periods =
     (let obs_series = fst (generate_spacing_series operiods (Some operiods_errors));
          obs_series_errors = the (snd (generate_spacing_series operiods (Some operiods_errors)));
          thr_series = fst (generate_spacing_series final_theoretical_periods None)
      in case np_broadcast (-) obs_series thr_series of
           Inl e \<Rightarrow> Inl e
         | Inr d \<Rightarrow>
             (case np_broadcast (/) d obs_series_errors of
                Inl e \<Rightarrow> Inl e
              | Inr q \<Rightarrow> Inr (sum_list (map (\<lambda>x. x ^ 2) q) / real (length obs_series))))"

text \<open>Lines 353-491 (the plotting branches, taken only with \<^verbatim>\<open>plot=True\<close>, are left out).
  The result is \<^verbatim>\<open>(series_chi2, final_theoretical_periods, corresponding_orders)\<close>.\<close>

definition chisq_longest_sequence ::
  "real list \<Rightarrow> int list \<Rightarrow> real list \<Rightarrow> real list \<Rightarrow> error + (real \<times> real list \<times> int list)" where
  "chisq_longest_sequence tperiods orders operiods operiods_errors =
     (if length tperiods < length operiods
      then Inr (10 ^ 16, replicate (length operiods) (- 1), replicate (length operiods) (- 1))
      else
       (case best_matches tperiods orders operiods_errors 0 operiods of
          Inl e \<Rightarrow> Inl e
        | Inr pairs_orders \<Rightarrow>
       (case increase_or_decrease orders of
          Inl e \<Rightarrow> Inl e
        | Inr incr \<Rightarrow>
       (case select_run (scan_runs incr pairs_orders [] []) of
          Inl e \<Rightarrow> Inl e
        | Inr lseq \<Rightarrow>
       (case lseq of
          [] \<Rightarrow> Inl IndexError
        | first # _ \<Rightarrow>
       (case first_index operiods (obs_period first) of
          Inl e \<Rightarrow> Inl e
        | Inr obs_ordering_ind \<Rightarrow>
       (case first_index tperiods (best_match first) of
          Inl e \<Rightarrow> Inl e
        | Inr thr_ordering_ind \<Rightarrow>
       (case align tperiods orders (int thr_ordering_ind - int obs_ordering_ind) (length operiods) of
          Inl e \<Rightarrow> Inl e
        | Inr aligned \<Rightarrow>
       (case series_chi2_of operiods operiods_errors (map fst aligned) of
          Inl e \<Rightarrow> Inl e
        | Inr series_chi2 \<Rightarrow>
            Inr (series_chi2, map fst aligned, map snd aligned))))))))))"

subsection \<open>PatternAssembler: \<^verbatim>\<open>rescale_rotation_and_select_theoretical_pattern\<close>\<close>

text \<open>The rescaling capability \<^verbatim>\<open>asymptotic_object.scale_pattern\<close> is external: it maps the
  native frequencies, the native rotation and the trial rotation to rescaled frequencies.
  \<^verbatim>\<open>asymptotic_object\<close> is \<open>None\<close> when the rotation is fixed. The astropy unit factors
  \<^verbatim>\<open>/u.d\<close> and \<^verbatim>\<open>*u.d\<close> cancel and are left out.\<close>

type_synonym scale_pattern = "real list \<Rightarrow> real \<Rightarrow> real \<Rightarrow> real list"

text \<open>\<^verbatim>\<open>np.delete(arr, obj)\<close> returns a new array without the entries at the indices
  \<open>obj\<close>; the array passed in is left as it was.\<close>

definition np_delete :: "real list \<Rightarrow> nat list \<Rightarrow> real list" where
  "np_delete arr obj = map (\<lambda>i. arr ! i) (filter (\<lambda>i. i \<notin> set obj) [0..<length arr])"

text \<open>Lines 259-263 and 271-275. The source calls \<^verbatim>\<open>np.delete\<close> and does not bind what it
  returns, so the only effect of these lines is an exception: IndexError from
  \<^verbatim>\<open>orders[1]\<close> or from \<^verbatim>\<open>output_pulsations[-2]\<close>. The value \<open>Inr\<close> carries is the array
  \<^verbatim>\<open>np.delete\<close> returns, which no later line reads. The first function is the call that
  deletes the entries \<^verbatim>\<open>>= output_pulsations[-2]\<close>, the second the call that deletes the
  entries \<^verbatim>\<open><= max(output_pulsations)\<close>.\<close>

definition delete_at_or_above_last_chosen :: "real list \<Rightarrow> real list \<Rightarrow> error + real list" where
  "delete_at_or_above_last_chosen values output_pulsations =
     (if length output_pulsations < 2 then Inl IndexError
      else Inr (np_delete values
                  (np_where (\<lambda>v. v \<ge> output_pulsations ! (length output_pulsations - 2)) values)))"

definition delete_at_or_below_max_chosen :: "real list \<Rightarrow> real list \<Rightarrow> error + real list" where
  "delete_at_or_below_max_chosen values output_pulsations =
     (case py_max output_pulsations of
        Inl e \<Rightarrow> Inl e
      | Inr mx \<Rightarrow> Inr (np_delete values (np_where (\<lambda>v. v \<le> mx) values)))"

text \<open>Lines 283-294: the choice of the selection method for one part. For
  \<^verbatim>\<open>highest_amplitude\<close> the value to build from is \<^verbatim>\<open>highest_amp_puls_part\<close>, which is
  \<open>None\<close> when the caller replaced the list by \<^verbatim>\<open>[None]*len(Obs_pattern_parts)\<close>; then
  \<^verbatim>\<open>np.where(Obs==None)[0][0]\<close> finds no index and raises IndexError.\<close>

definition select_by_method ::
  "string \<Rightarrow> string \<Rightarrow> real list \<Rightarrow> real list \<Rightarrow> int list \<Rightarrow> real list \<Rightarrow> real list \<Rightarrow> real list
     \<Rightarrow> real \<Rightarrow> real option \<Rightarrow> error + real list" where
  "select_by_method which_observable method_build_series Theo_value periods orders Obs_part ObsPeriod ObsErr_P
       highest_obs_freq highest_amp_puls_part =
     (if method_build_series = ''highest_amplitude'' then
        (case highest_amp_puls_part of
           None \<Rightarrow> Inl IndexError
         | Some v \<Rightarrow> puls_series_from_given_puls Theo_value Obs_part v)
      else if method_build_series = ''highest_frequency'' then
        puls_series_from_given_puls Theo_value Obs_part highest_obs_freq
      else if method_build_series = ''chisq_longest_sequence'' then
        (case chisq_longest_sequence periods orders ObsPeriod ObsErr_P of
           Inl e \<Rightarrow> Inl e
         | Inr (series_chi2, final_theoretical_periods, corresponding_orders) \<Rightarrow>
             if which_observable = ''frequency''
             then Inr (map (\<lambda>p. 1 / p) final_theoretical_periods)
             else Inr final_theoretical_periods)
      else Inl SystemExit)"

text \<open>Lines 257-296: the loop body after the gap marker has been appended; it returns
  \<^verbatim>\<open>selected_theoretical_pulsations\<close>. \<open>Theo_value\<close> is the whole array \<open>freqs\<close> or
  \<open>periods\<close>, whatever \<^verbatim>\<open>np.delete\<close> returned.\<close>

definition select_part ::
  "string \<Rightarrow> string \<Rightarrow> real list \<Rightarrow> real list \<Rightarrow> int list \<Rightarrow> real list \<Rightarrow> real list \<Rightarrow> real list
     \<Rightarrow> real option \<Rightarrow> error + real list" where
  "select_part which_observable method_build_series freqs periods orders output_pulsations
       Obs_part ObsErr_part highest_amp_puls_part =
     (if which_observable = ''frequency'' then
        (case (if length output_pulsations > 0 then
                 (if length orders < 2 then Inl IndexError
                  else if orders ! 1 = orders ! 0 - 1
                       then delete_at_or_above_last_chosen freqs output_pulsations
                       else delete_at_or_below_max_chosen freqs output_pulsations)
               else Inr freqs) of
           Inl e \<Rightarrow> Inl e
         | Inr not_bound \<Rightarrow>
             (let Theo_value = freqs;
                  ObsPeriod = map (\<lambda>x. 1 / x) Obs_part
              in case np_broadcast (/) ObsErr_part (map (\<lambda>x. x ^ 2) Obs_part) of
                   Inl e \<Rightarrow> Inl e
                 | Inr ObsErr_P \<Rightarrow>
                     (case py_max Obs_part of
                        Inl e \<Rightarrow> Inl e
                      | Inr highest_obs_freq \<Rightarrow>
                          select_by_method which_observable method_build_series Theo_value periods orders
                            Obs_part ObsPeriod ObsErr_P highest_obs_freq highest_amp_puls_part)))
      else if which_observable = ''period'' then
        (case (if length output_pulsations > 0 then
                 (if length orders < 2 then Inl IndexError
                  else if orders ! 1 = orders ! 0 - 1
                       then delete_at_or_below_max_chosen periods output_pulsations
                       else delete_at_or_above_last_chosen periods output_pulsations)
               else Inr periods) of
           Inl e \<Rightarrow> Inl e
         | Inr not_bound \<Rightarrow>
             (let Theo_value = periods;
                  ObsPeriod = Obs_part;
                  ObsErr_P = ObsErr_part
              in case py_min Obs_part of
                   Inl e \<Rightarrow> Inl e
                 | Inr highest_obs_freq \<Rightarrow>
                     select_by_method which_observable method_build_series Theo_value periods orders
                       Obs_part ObsPeriod ObsErr_P highest_obs_freq highest_amp_puls_part))
      else Inl SystemExit)"

text \<open>Lines 253-296: the loop over
  \<^verbatim>\<open>zip(Obs_pattern_parts, ObsErr_pattern_parts, highest_amp_puls)\<close>, carrying
  \<open>output_pulsations\<close>. It returns the assembled list, before the observations are
  subtracted.\<close>

fun assemble ::
  "string \<Rightarrow> string \<Rightarrow> real list \<Rightarrow> real list \<Rightarrow> int list \<Rightarrow> real list
     \<Rightarrow> (real list \<times> real list \<times> real option) list \<Rightarrow> error + real list" where
  "assemble which_observable method_build_series freqs periods orders output_pulsations [] =
     Inr output_pulsations"
| "assemble which_observable method_build_series freqs periods orders output_pulsations
       ((Obs_part, ObsErr_part, highest_amp_puls_part) # rest) =
     (let output_pulsations1 =
            (if length output_pulsations > 0 then output_pulsations @ [0] else output_pulsations)
      in case select_part which_observable method_build_series freqs periods orders output_pulsations1
                Obs_part ObsErr_part highest_amp_puls_part of
           Inl e \<Rightarrow> Inl e
         | Inr selected_theoretical_pulsations \<Rightarrow>
             assemble which_observable method_build_series freqs periods orders
               (output_pulsations1 @ selected_theoretical_pulsations) rest)"

text \<open>Lines 243-251: the frequencies the selection works on. \<open>params\<close> is the value of the
  lmfit parameter \<^verbatim>\<open>rotation\<close>, \<open>None\<close> when the caller passes \<^verbatim>\<open>None\<close> for \<^verbatim>\<open>params\<close>
  (then \<^verbatim>\<open>params.valuesdict()\<close> raises AttributeError).\<close>

definition scaled_freqs :: "real option \<Rightarrow> scale_pattern option \<Rightarrow> real \<Rightarrow> real list \<Rightarrow> error + real list" where
  "scaled_freqs params asymptotic_object estimated_rotation freqs_input =
     (case asymptotic_object of
        Some scale_pattern \<Rightarrow>
          (case params of
             None \<Rightarrow> Inl AttributeError
           | Some rotation \<Rightarrow>
               Inr (scale_pattern freqs_input
                      (if estimated_rotation = 0 then 1 / 10 ^ 99 else estimated_rotation) rotation))
      | None \<Rightarrow> Inr freqs_input)"

text \<open>Lines 196-298, for arguments of the types the docstring gives. The last line subtracts
  the numpy array \<open>Obs\<close> from the Python list \<open>output_pulsations\<close> with broadcasting.\<close>

definition rescale_rotation_and_select_theoretical_pattern ::
  "real option \<Rightarrow> scale_pattern option \<Rightarrow> real \<Rightarrow> real list \<Rightarrow> int list \<Rightarrow> real list \<Rightarrow> real list
     \<Rightarrow> real list list \<Rightarrow> real list list \<Rightarrow> string \<Rightarrow> string \<Rightarrow> real option list \<Rightarrow> error + real list" where
  "rescale_rotation_and_select_theoretical_pattern params asymptotic_object estimated_rotation
       freqs_input orders Obs ObsErr Obs_pattern_parts ObsErr_pattern_parts which_observable
       method_build_series highest_amp_puls =
     (case scaled_freqs params asymptotic_object estimated_rotation freqs_input of
        Inl e \<Rightarrow> Inl e
      | Inr freqs \<Rightarrow>
          (let periods = map (\<lambda>f. 1 / f) freqs
           in case assemble which_observable method_build_series freqs periods orders []
                     (zip Obs_pattern_parts (zip ObsErr_pattern_parts highest_amp_puls)) of
                Inl e \<Rightarrow> Inl e
              | Inr output_pulsations \<Rightarrow> np_broadcast (-) output_pulsations Obs))"

subsection \<open>GridMatcher row function: \<^verbatim>\<open>theoretical_pattern_from_dfrow\<close>\<close>

text \<open>The pandas row \<^verbatim>\<open>summary_grid_row[1]\<close>: \<open>parameters\<close> are the labelled entries of the
  slice \<^verbatim>\<open>[:'Xc']\<close>, in order; \<open>n_pg\<close> are the columns whose label contains \<^verbatim>\<open>n_pg\<close>, each
  with the radial order parsed from its label and its frequency, \<open>None\<close> for NaN.\<close>

record grid_row =
  parameters :: "(string \<times> real) list"
  n_pg :: "(int \<times> real option) list"

text \<open>\<^verbatim>\<open>list_out\<close> is the flat list of the rotation, its error, the model parameters and the
  selected pulsations; the error is \<open>None\<close> where lmfit reports no uncertainty.\<close>

record list_out =
  rotation :: real
  rotation_error :: "real option"
  model_parameters :: "real list"
  pulsations :: "real list"

text \<open>\<^verbatim>\<open>np.split(ary, indices)\<close>: the sections \<^verbatim>\<open>ary[0:i1], ary[i1:i2], ..., ary[in:]\<close>,
  each a Python slice (empty when its bounds are out of order or beyond the array). \<open>start\<close>
  is the lower bound of the next section.\<close>

fun np_split_from :: "nat \<Rightarrow> 'a list \<Rightarrow> nat list \<Rightarrow> 'a list list" where
  "np_split_from start ary [] = [drop start ary]"
| "np_split_from start ary (i # indices) =
     take (i - start) (drop start ary) # np_split_from i ary indices"

definition np_split :: "'a list \<Rightarrow> nat list \<Rightarrow> 'a list list" where
  "np_split ary indices = np_split_from 0 ary indices"

text \<open>Lines 117-120: the positions of the gap markers, moved left by the number of markers
  removed before them. (The subtraction cannot go below zero: the \<open>i\<close>-th marker has
  \<open>i\<close> markers before it.)\<close>

definition missing_puls_of :: "real list \<Rightarrow> nat list" where
  "missing_puls_of Obs =
     (let missing_puls = np_where (\<lambda>x. x = 0) Obs
      in map (\<lambda>i. missing_puls ! i - i) [0..<length missing_puls])"

text \<open>Lines 136-137: \<^verbatim>\<open>summary_grid_row[1][:'Xc'].drop('rot')\<close> raises KeyError when the
  slice has no label \<^verbatim>\<open>rot\<close>.\<close>

definition parameters_without_rot :: "grid_row \<Rightarrow> error + real list" where
  "parameters_without_rot row =
     (if ''rot'' \<in> set (map fst (parameters row))
      then Inr (map snd (filter (\<lambda>(name, value). name \<noteq> ''rot'') (parameters row)))
      else Inl KeyError)"

text \<open>Values as Python passes them to a function: the callee receives objects, whatever the
  parameter is meant to hold.\<close>

datatype pyval =
    PyNone
  | PyBool bool
  | PyFloat real
  | PyStr string
  | PyFloats "real list"
  | PyInts "int list"
  | PyList "pyval list"
  | PyAsymptotic scale_pattern

text \<open>\<^verbatim>\<open>iter(v)\<close> succeeds on strings, arrays and lists; on \<^verbatim>\<open>None\<close>, a bool, a float or
  the asymptotic object it raises TypeError.\<close>

fun iterable :: "pyval \<Rightarrow> bool" where
  "iterable (PyStr s) = True"
| "iterable (PyFloats xs) = True"
| "iterable (PyInts ks) = True"
| "iterable (PyList vs) = True"
| "iterable v = False"

text \<open>The test \<^verbatim>\<open>v is None\<close>.\<close>

fun is_None :: "pyval \<Rightarrow> bool" where
  "is_None PyNone = True"
| "is_None v = False"

text \<open>Reading an object as a value of the type the docstring of
  \<^verbatim>\<open>rescale_rotation_and_select_theoretical_pattern\<close> gives for a parameter; \<open>None\<close> when the
  object is of another type.\<close>

fun as_params :: "pyval \<Rightarrow> real option option" where
  "as_params PyNone = Some None"
| "as_params (PyFloat r) = Some (Some r)"
| "as_params v = None"

fun as_asymptotic :: "pyval \<Rightarrow> scale_pattern option option" where
  "as_asymptotic PyNone = Some None"
| "as_asymptotic (PyAsymptotic f) = Some (Some f)"
| "as_asymptotic v = None"

fun as_float :: "pyval \<Rightarrow> real option" where
  "as_float (PyFloat r) = Some r"
| "as_float v = None"

fun as_floats :: "pyval \<Rightarrow> real list option" where
  "as_floats (PyFloats xs) = Some xs"
| "as_floats v = None"

fun as_ints :: "pyval \<Rightarrow> int list option" where
  "as_ints (PyInts ks) = Some ks"
| "as_ints v = None"

fun as_str :: "pyval \<Rightarrow> string option" where
  "as_str (PyStr s) = Some s"
| "as_str v = None"

fun as_list_of :: "(pyval \<Rightarrow> 'a option) \<Rightarrow> pyval \<Rightarrow> 'a list option" where
  "as_list_of f (PyList vs) = those (map f vs)"
| "as_list_of f v = None"

text \<open>A call of \<^verbatim>\<open>rescale_rotation_and_select_theoretical_pattern\<close> with positional
  arguments. Python binds the arguments to the twelve parameters in order, whatever they
  hold; another number of arguments raises TypeError. The result is \<open>Some\<close> of what the
  call does in two cases:
  \<^item> every argument is of the type the docstring gives: the function runs as embedded above;
  \<^item> \<^verbatim>\<open>asymptotic_object\<close> is \<^verbatim>\<open>None\<close>, \<^verbatim>\<open>freqs_input\<close> is a float array, and one of the
    three arguments of \<^verbatim>\<open>zip\<close> (the 8th, 9th and 12th parameter) is not iterable: lines
    243-253 run without an exception and \<^verbatim>\<open>zip\<close> in line 254 raises TypeError.
  For other ill-typed arguments the result is \<open>None\<close>: the embedding does not describe
  what Python does with them.\<close>

fun call_rescale_rotation_and_select_theoretical_pattern :: "pyval list \<Rightarrow> (error + real list) option" where
  "call_rescale_rotation_and_select_theoretical_pattern
       [params, asymptotic_object, estimated_rotation, freqs_input, orders, Obs, ObsErr,
        Obs_pattern_parts, ObsErr_pattern_parts, which_observable, method_build_series,
        highest_amp_puls] =
     (case (as_params params, as_asymptotic asymptotic_object, as_float estimated_rotation,
            as_floats freqs_input, as_ints orders, as_floats Obs, as_floats ObsErr,
            as_list_of as_floats Obs_pattern_parts, as_list_of as_floats ObsErr_pattern_parts,
            as_str which_observable, as_str method_build_series,
            as_list_of as_params highest_amp_puls) of
        (Some p, Some a, Some r, Some f, Some k, Some ob, Some oe, Some obp, Some oep,
         Some w, Some m, Some h) \<Rightarrow>
          Some (rescale_rotation_and_select_theoretical_pattern p a r f k ob oe obp oep w m h)
      | _ \<Rightarrow>
          if is_None asymptotic_object \<and> as_floats freqs_input \<noteq> None
             \<and> \<not> (iterable Obs_pattern_parts \<and> iterable ObsErr_pattern_parts
                    \<and> iterable highest_amp_puls)
          then Some (Inl TypeError)
          else None)"
| "call_rescale_rotation_and_select_theoretical_pattern args = Some (Inl TypeError)"

text \<open>The least-squares capability of lmfit, external: from the objective (the trial
  rotation to the residual vector, or an exception) and the initial rotation it returns the
  fitted rotation, its uncertainty (possibly undefined) and the residual at the fit, or the
  exception the objective raised.\<close>

type_synonym minimizer = "(real \<Rightarrow> error + real list) \<Rightarrow> real \<Rightarrow> error + (real \<times> real option \<times> real list)"

text \<open>Lines 112-193 (the plotting block, guarded by \<^verbatim>\<open>plot = False\<close>, is left out). The
  call in lines 132-133 passes twelve positional arguments: \<^verbatim>\<open>None, asymptotic_object,
  estimated_rotation, freqs, Obs, ObsErr, Obs_pattern_parts, ObsErr_pattern_parts,
  which_observable, method_build_series, highest_amp_puls, False\<close>. In the other branch
  lmfit calls the objective with the parameters followed by \<^verbatim>\<open>fcn_args\<close>, which are of the
  documented types.\<close>

definition theoretical_pattern_from_dfrow ::
  "minimizer \<Rightarrow> grid_row \<Rightarrow> real list \<Rightarrow> real list \<Rightarrow> string \<Rightarrow> string \<Rightarrow> real list
     \<Rightarrow> scale_pattern option \<Rightarrow> real \<Rightarrow> (error + list_out) option" where
  "theoretical_pattern_from_dfrow minimize summary_grid_row Obs0 ObsErr0 which_observable
       method_build_series highest_amp_puls0 asymptotic_object estimated_rotation =
     (let computed = filter (\<lambda>(order, freq). freq \<noteq> None) (n_pg summary_grid_row);
          orders = map fst computed;
          freqs = map (\<lambda>(order, freq). the freq) computed;
          missing_puls = missing_puls_of Obs0;
          Obs = filter (\<lambda>x. x \<noteq> 0) Obs0;
          ObsErr = filter (\<lambda>x. x \<noteq> 0) ObsErr0;
          Obs_pattern_parts = np_split Obs missing_puls;
          ObsErr_pattern_parts = np_split ObsErr missing_puls
      in if length Obs_pattern_parts \<noteq> length highest_amp_puls0
            \<and> method_build_series = ''highest_amplitude''
         then Some (Inl SystemExit)
         else
           (let highest_amp_puls =
                  (if length Obs_pattern_parts \<noteq> length highest_amp_puls0
                   then replicate (length Obs_pattern_parts) None
                   else map Some highest_amp_puls0)
            in case asymptotic_object of
                 None \<Rightarrow>
                   (case call_rescale_rotation_and_select_theoretical_pattern
                           [PyNone, PyNone, PyFloat estimated_rotation, PyFloats freqs, PyFloats Obs,
                            PyFloats ObsErr, PyList (map PyFloats Obs_pattern_parts),
                            PyList (map PyFloats ObsErr_pattern_parts), PyStr which_observable,
                            PyStr method_build_series,
                            PyList (map (\<lambda>v. case v of None \<Rightarrow> PyNone | Some r \<Rightarrow> PyFloat r) highest_amp_puls),
                            PyBool False] of
                      None \<Rightarrow> None
                    | Some (Inl e) \<Rightarrow> Some (Inl e)
                    | Some (Inr residual) \<Rightarrow>
                        (case parameters_without_rot summary_grid_row of
                           Inl e \<Rightarrow> Some (Inl e)
                         | Inr ps \<Rightarrow>
                             (case np_broadcast (+) Obs residual of
                                Inl e \<Rightarrow> Some (Inl e)
                              | Inr selected_pulsations \<Rightarrow>
                                  Some (Inr \<lparr>rotation = estimated_rotation, rotation_error = Some 0,
                                             model_parameters = ps, pulsations = selected_pulsations\<rparr>))))
               | Some scale \<Rightarrow>
                   (case minimize
                           (\<lambda>trial. rescale_rotation_and_select_theoretical_pattern (Some trial)
                                      asymptotic_object estimated_rotation freqs orders Obs ObsErr
                                      Obs_pattern_parts ObsErr_pattern_parts which_observable
                                      method_build_series highest_amp_puls)
                           estimated_rotation of
                      Inl e \<Rightarrow> Some (Inl e)
                    | Inr (value, stderr, residual) \<Rightarrow>
                        (case np_broadcast (+) residual Obs of
                           Inl e \<Rightarrow> Some (Inl e)
                         | Inr optimised_pulsations \<Rightarrow>
                             (case parameters_without_rot summary_grid_row of
                                Inl e \<Rightarrow> Some (Inl e)
                              | Inr ps \<Rightarrow>
                                  Some (Inr \<lparr>rotation = value, rotation_error = stderr,
                                             model_parameters = ps, pulsations = optimised_pulsations\<rparr>))))))"

section \<open>Auxiliary facts about the modelled builtins\<close>

lemma py_min_Inr:
  assumes "py_min xs = Inr m"
  shows "m \<in> set xs" and "\<forall>x \<in> set xs. m \<le> x"
proof -
  obtain y ys where xs: "xs = y # ys" using assms by (cases xs) auto
  then have m: "m = Min (set (y # ys))" using assms Min.set_eq_fold [of y ys] by simp
  show "m \<in> set xs" unfolding m xs by (rule Min_in) auto
  show "\<forall>x \<in> set xs. m \<le> x" unfolding m xs by (auto intro: Min_le)
qed

lemma py_min_nonempty: "xs \<noteq> [] \<Longrightarrow> \<exists>m. py_min xs = Inr m"
  by (cases xs) auto

lemma py_max_Inr:
  assumes "py_max xs = Inr m"
  shows "m \<in> set xs" and "\<forall>x \<in> set xs. x \<le> m"
proof -
  obtain y ys where xs: "xs = y # ys" using assms by (cases xs) auto
  then have m: "m = Max (set (y # ys))" using assms Max.set_eq_fold [of y ys] by simp
  show "m \<in> set xs" unfolding m xs by (rule Max_in) auto
  show "\<forall>x \<in> set xs. x \<le> m" unfolding m xs by (auto intro: Max_ge)
qed

lemma py_max_nonempty: "xs \<noteq> [] \<Longrightarrow> \<exists>m. py_max xs = Inr m"
  by (cases xs) auto

lemma set_np_where: "set (np_where cond xs) = {i. i < length xs \<and> cond (xs ! i)}"
  by (auto simp: np_where_def)

lemma sorted_np_where: "sorted (np_where cond xs)"
  by (simp add: np_where_def sorted_wrt_filter)

lemma distinct_np_where: "distinct (np_where cond xs)"
  by (simp add: np_where_def)

lemma np_where_Cons:
  assumes "np_where cond xs = k # ks"
  shows "k < length xs" and "cond (xs ! k)" and "\<forall>j < k. \<not> cond (xs ! j)"
proof -
  have k: "k \<in> set (np_where cond xs)" using assms by simp
  then show "k < length xs" and "cond (xs ! k)" by (auto simp: set_np_where)
  show "\<forall>j < k. \<not> cond (xs ! j)"
  proof (intro allI impI notI)
    fix j assume j: "j < k" and c: "cond (xs ! j)"
    from j \<open>k < length xs\<close> c have "j \<in> set (np_where cond xs)" by (simp add: set_np_where)
    then have "j = k \<or> j \<in> set ks" using assms by simp
    moreover have "\<forall>i \<in> set ks. k \<le> i" using sorted_np_where [of cond xs] assms by simp
    ultimately show False using j by auto
  qed
qed

lemma np_where_nonempty:
  assumes "i < length xs" and "cond (xs ! i)"
  shows "np_where cond xs \<noteq> []"
proof -
  have "i \<in> set (np_where cond xs)" using assms by (simp add: set_np_where)
  then show ?thesis by auto
qed

lemma first_index_Inr:
  assumes "first_index xs v = Inr i"
  shows "i < length xs" and "xs ! i = v" and "\<forall>j < i. xs ! j \<noteq> v"
proof -
  from assms obtain ks where w: "np_where (\<lambda>x. x = v) xs = i # ks"
    by (auto simp: first_index_def split: list.splits)
  show "i < length xs" and "xs ! i = v" and "\<forall>j < i. xs ! j \<noteq> v"
    using np_where_Cons [OF w] by auto
qed

lemma first_index_mem:
  assumes "v \<in> set xs"
  shows "\<exists>i. first_index xs v = Inr i"
proof -
  from assms obtain i where "i < length xs" "xs ! i = v" by (auto simp: in_set_conv_nth)
  then have "np_where (\<lambda>x. x = v) xs \<noteq> []" by (intro np_where_nonempty [of i]) auto
  then show ?thesis by (auto simp: first_index_def split: list.splits)
qed


lemma length_chisqs_of: "length (chisqs_of tperiods period e) = length tperiods"
  by (simp add: chisqs_of_def)

lemma nth_chisqs_of:
  "j < length tperiods \<Longrightarrow> chisqs_of tperiods period e ! j = ((period - tperiods ! j) / e) ^ 2"
  by (simp add: chisqs_of_def)

lemma best_pair_Inr:
  assumes "best_pair tperiods orders period e = Inr p"
  shows "\<exists>k < length tperiods. k < length orders
           \<and> p = \<lparr>obs_period = period, best_match = tperiods ! k, best_order = orders ! k,
                  best_chisq = ((period - tperiods ! k) / e) ^ 2\<rparr>
           \<and> (\<forall>j < length tperiods.
                 ((period - tperiods ! k) / e) ^ 2 \<le> ((period - tperiods ! j) / e) ^ 2)
           \<and> (\<forall>j < k. ((period - tperiods ! k) / e) ^ 2 < ((period - tperiods ! j) / e) ^ 2)"
proof -
  let ?cs = "chisqs_of tperiods period e"
  from assms obtain m where m: "py_min ?cs = Inr m"
    by (auto simp: best_pair_def Let_def split: sum.splits)
  from assms m obtain k ks where w: "np_where (\<lambda>c. c = m) ?cs = k # ks"
    by (auto simp: best_pair_def Let_def split: list.splits)
  from assms m w have ex: "\<not> list_ex (\<lambda>i. length orders \<le> i) (k # ks)"
    and p: "p = \<lparr>obs_period = period, best_match = tperiods ! k, best_order = orders ! k,
                 best_chisq = ?cs ! k\<rparr>"
    by (auto simp: best_pair_def Let_def split: if_splits)
  from np_where_Cons [OF w] have k: "k < length tperiods" and ck: "?cs ! k = m"
    and first: "\<forall>j < k. ?cs ! j \<noteq> m"
    by (simp_all add: length_chisqs_of)
  from py_min_Inr(2) [OF m] have low: "\<forall>j < length tperiods. m \<le> ?cs ! j"
    using nth_mem [of _ ?cs] by (auto simp: length_chisqs_of)
  have "\<forall>j < k. m < ?cs ! j"
  proof (intro allI impI)
    fix j assume "j < k"
    with first low k have "?cs ! j \<noteq> m" "m \<le> ?cs ! j" by auto
    then show "m < ?cs ! j" by simp
  qed
  with k low ck p ex show ?thesis
    by (intro exI [of _ k]) (auto simp: nth_chisqs_of)
qed

lemma best_pair_total:
  assumes "tperiods \<noteq> []" and "length tperiods \<le> length orders"
  shows "\<exists>p. best_pair tperiods orders period e = Inr p"
proof -
  let ?cs = "chisqs_of tperiods period e"
  have "?cs \<noteq> []" using assms(1) by (simp add: chisqs_of_def)
  then obtain m where m: "py_min ?cs = Inr m" using py_min_nonempty by blast
  from py_min_Inr(1) [OF m] obtain i where "i < length ?cs" "?cs ! i = m"
    by (auto simp: in_set_conv_nth)
  then have "np_where (\<lambda>c. c = m) ?cs \<noteq> []" by (intro np_where_nonempty [of i]) auto
  then obtain k ks where w: "np_where (\<lambda>c. c = m) ?cs = k # ks" by (cases "np_where (\<lambda>c. c = m) ?cs") auto
  have "\<forall>i \<in> set (k # ks). i < length orders"
    using set_np_where [of "\<lambda>c. c = m" ?cs] assms(2) unfolding w by (auto simp: length_chisqs_of)
  then have "\<not> list_ex (\<lambda>i. length orders \<le> i) (k # ks)" by (auto simp: list_ex_iff)
  with m w show ?thesis by (simp add: best_pair_def Let_def)
qed

lemma best_matches_Inr:
  "best_matches tperiods orders errs ii operiods = Inr pairs \<Longrightarrow>
     length pairs = length operiods
     \<and> (\<forall>n < length operiods. best_pair tperiods orders (operiods ! n) (errs ! (ii + n)) = Inr (pairs ! n))"
proof (induction operiods arbitrary: ii pairs)
  case Nil
  then show ?case by simp
next
  case (Cons period rest)
  from Cons.prems obtain p ps where p: "best_pair tperiods orders period (errs ! ii) = Inr p"
    and ps: "best_matches tperiods orders errs (Suc ii) rest = Inr ps" and pairs: "pairs = p # ps"
    by (auto split: if_splits sum.splits)
  from Cons.IH [OF ps] have len: "length ps = length rest"
    and nth: "\<forall>n < length rest. best_pair tperiods orders (rest ! n) (errs ! (Suc ii + n)) = Inr (ps ! n)"
    by auto
  show ?case
  proof (intro conjI allI impI)
    show "length pairs = length (period # rest)" using len pairs by simp
  next
    fix n assume n: "n < length (period # rest)"
    show "best_pair tperiods orders ((period # rest) ! n) (errs ! (ii + n)) = Inr (pairs ! n)"
    proof (cases n)
      case 0
      then show ?thesis using p pairs by simp
    next
      case (Suc n')
      then show ?thesis using nth n pairs by simp
    qed
  qed
qed

lemma best_matches_total:
  assumes "tperiods \<noteq> []" and "length tperiods \<le> length orders"
  shows "ii + length operiods \<le> length errs \<Longrightarrow>
         \<exists>pairs. best_matches tperiods orders errs ii operiods = Inr pairs"
proof (induction operiods arbitrary: ii)
  case Nil
  then show ?case by simp
next
  case (Cons period rest)
  obtain p where p: "best_pair tperiods orders period (errs ! ii) = Inr p"
    using best_pair_total [OF assms] by blast
  from Cons.prems have "Suc ii + length rest \<le> length errs" by simp
  from Cons.IH [OF this] obtain ps where "best_matches tperiods orders errs (Suc ii) rest = Inr ps"
    by blast
  with p Cons.prems show ?case by simp
qed

section \<open>Verified properties\<close>

text \<open>C1. Whenever the theoretical period list is shorter than the observed period list,
  \<open>chisq_longest_sequence\<close> returns normally: the chi-square is exactly \<open>1e16\<close>, and the
  matched-value list and the order list have the length of the observed segment and hold
  only the sentinel \<open>-1\<close>.\<close>

theorem short_pattern_all_sentinel:
  assumes "length tperiods < length operiods"
  shows "\<exists>ps os. chisq_longest_sequence tperiods orders operiods operiods_errors = Inr (10 ^ 16, ps, os)
           \<and> length ps = length operiods \<and> length os = length operiods
           \<and> (\<forall>p \<in> set ps. p = - 1) \<and> (\<forall>k \<in> set os. k = - 1)"
  using assms by (simp add: chisq_longest_sequence_def)

theorem short_pattern_all_sentinel_witness:
  "length [2 :: real] < length [3 :: real, 4]
   \<and> chisq_longest_sequence [2] [- 7] [3, 4] [1, 1] = Inr (10 ^ 16, [- 1, - 1], [- 1, - 1])"
  using short_pattern_all_sentinel [of "[2]" "[3, 4]" "[- 7]" "[1, 1]"]
  by (auto simp: chisq_longest_sequence_def)

text \<open>C4. For nonzero observed errors, a nonempty theoretical list and order and error lists
  of matching lengths, the first loop of Strategy B returns one row per observed period;
  row \<open>ii\<close> holds the observed period, the theoretical period at an index \<open>k\<close>, the radial
  order at \<open>k\<close> and the chi-square at \<open>k\<close>, where \<open>k\<close> minimises
  \<open>((observed - theoretical) / error)\<^sup>2\<close> over all theoretical periods and is the lowest
  such index.\<close>

theorem best_match_minimises_chisq:
  assumes "tperiods \<noteq> []" and "length orders = length tperiods"
    and "length operiods_errors = length operiods" and "0 \<notin> set operiods_errors"
  shows "\<exists>pairs_orders.
           best_matches tperiods orders operiods_errors 0 operiods = Inr pairs_orders
           \<and> length pairs_orders = length operiods
           \<and> (\<forall>ii < length operiods. \<exists>k < length tperiods.
                 pairs_orders ! ii =
                   \<lparr>obs_period = operiods ! ii, best_match = tperiods ! k, best_order = orders ! k,
                    best_chisq = ((operiods ! ii - tperiods ! k) / operiods_errors ! ii) ^ 2\<rparr>
                 \<and> (\<forall>j < length tperiods.
                       ((operiods ! ii - tperiods ! k) / operiods_errors ! ii) ^ 2
                         \<le> ((operiods ! ii - tperiods ! j) / operiods_errors ! ii) ^ 2)
                 \<and> (\<forall>j < k.
                       ((operiods ! ii - tperiods ! k) / operiods_errors ! ii) ^ 2
                         < ((operiods ! ii - tperiods ! j) / operiods_errors ! ii) ^ 2))"
proof -
  obtain pairs where pairs: "best_matches tperiods orders operiods_errors 0 operiods = Inr pairs"
    using best_matches_total [of tperiods orders 0 operiods operiods_errors] assms by auto
  from best_matches_Inr [OF pairs] have len: "length pairs = length operiods"
    and nth: "\<forall>n < length operiods.
                best_pair tperiods orders (operiods ! n) (operiods_errors ! n) = Inr (pairs ! n)"
    by auto
  show ?thesis
  proof (intro exI [of _ pairs] conjI allI impI)
    fix ii assume "ii < length operiods"
    with nth have "best_pair tperiods orders (operiods ! ii) (operiods_errors ! ii) = Inr (pairs ! ii)"
      by simp
    from best_pair_Inr [OF this]
    show "\<exists>k < length tperiods.
            pairs ! ii =
              \<lparr>obs_period = operiods ! ii, best_match = tperiods ! k, best_order = orders ! k,
               best_chisq = ((operiods ! ii - tperiods ! k) / operiods_errors ! ii) ^ 2\<rparr>
            \<and> (\<forall>j < length tperiods.
                  ((operiods ! ii - tperiods ! k) / operiods_errors ! ii) ^ 2
                    \<le> ((operiods ! ii - tperiods ! j) / operiods_errors ! ii) ^ 2)
            \<and> (\<forall>j < k.
                  ((operiods ! ii - tperiods ! k) / operiods_errors ! ii) ^ 2
                    < ((operiods ! ii - tperiods ! j) / operiods_errors ! ii) ^ 2)"
      by blast
  qed (use pairs len in simp_all)
qed



theorem best_match_minimises_chisq_witness:
  "[3 :: real, 2, 1] \<noteq> [] \<and> length [- 13 :: int, - 12, - 11] = length [3 :: real, 2, 1]
   \<and> length [1 / 10 :: real, 1 / 10] = length [19 / 10 :: real, 1]
   \<and> 0 \<notin> set [1 / 10 :: real, 1 / 10]
   \<and> best_matches [3, 2, 1] [- 13, - 12, - 11] [1 / 10, 1 / 10] 0 [19 / 10, 1]
       = Inr [\<lparr>obs_period = 19 / 10, best_match = 2, best_order = - 12, best_chisq = 1\<rparr>,
              \<lparr>obs_period = 1, best_match = 1, best_order = - 11, best_chisq = 0\<rparr>]"
  using best_match_minimises_chisq [of "[3, 2, 1]" "[- 13, - 12, - 11]" "[1 / 10, 1 / 10]" "[19 / 10, 1]"]
  by (simp add: best_pair_def chisqs_of_def np_where_def upt_rec power2_eq_square)

section \<open>Auxiliary facts about the run scan\<close>

lemma concat_scan_runs:
  "2 \<le> length ps \<Longrightarrow>
     concat (scan_runs incr ps current sequences)
       = concat sequences @ current @ butlast ps @ [last (butlast ps)]"
proof (induction incr ps current sequences rule: scan_runs.induct)
  case (1 incr sett nxt rest current sequences)
  show ?case
  proof (cases "rest = []")
    case True
    then show ?thesis by (simp add: Let_def)
  next
    case False
    then have len: "2 \<le> length (nxt # rest)" by (cases rest) auto
    show ?thesis
    proof (cases "\<bar>best_order sett\<bar> = \<bar>best_order nxt\<bar> + incr")
      case True
      from "1.IH" [of "(current @ [sett], sequences)" "current @ [sett]" sequences
                      "(current @ [sett], sequences)" "current @ [sett]" sequences] True False len
      show ?thesis by (simp add: Let_def)
    next
      case c: False
      from "1.IH" [of "([], sequences @ [current @ [sett]])" "[]" "sequences @ [current @ [sett]]"
                      "([], sequences @ [current @ [sett]])" "[]" "sequences @ [current @ [sett]]"] c False len
      show ?thesis by (simp add: Let_def)
    qed
  qed
qed simp_all

lemma last_scan_runs:
  "2 \<le> length ps \<Longrightarrow>
     scan_runs incr ps current sequences \<noteq> [] \<and>
     (if \<bar>best_order (last (butlast ps))\<bar> = \<bar>best_order (last ps)\<bar> + incr
      then \<exists>pre. last (scan_runs incr ps current sequences)
                   = pre @ [last (butlast ps), last (butlast ps)]
      else last (scan_runs incr ps current sequences) = [last (butlast ps)])"
proof (induction incr ps current sequences rule: scan_runs.induct)
  case (1 incr sett nxt rest current sequences)
  show ?case
  proof (cases "rest = []")
    case True
    then show ?thesis by (simp add: Let_def)
  next
    case False
    then have len: "2 \<le> length (nxt # rest)" by (cases rest) auto
    have tails: "last (butlast (sett # nxt # rest)) = last (butlast (nxt # rest))"
      "last (sett # nxt # rest) = last (nxt # rest)"
      using False by simp_all
    show ?thesis
    proof (cases "\<bar>best_order sett\<bar> = \<bar>best_order nxt\<bar> + incr")
      case True
      have step: "scan_runs incr (sett # nxt # rest) current sequences
                    = scan_runs incr (nxt # rest) (current @ [sett]) sequences"
        using True False by (simp add: Let_def)
      show ?thesis unfolding step tails
        by (rule "1.IH" [of "(current @ [sett], sequences)" "current @ [sett]" sequences
                            "(current @ [sett], sequences)" "current @ [sett]" sequences])
           (use True False len in simp_all)
    next
      case c: False
      have step: "scan_runs incr (sett # nxt # rest) current sequences
                    = scan_runs incr (nxt # rest) [] (sequences @ [current @ [sett]])"
        using c False by (simp add: Let_def)
      show ?thesis unfolding step tails
        by (rule "1.IH" [of "([], sequences @ [current @ [sett]])" "[]" "sequences @ [current @ [sett]]"
                            "([], sequences @ [current @ [sett]])" "[]" "sequences @ [current @ [sett]]"])
           (use c False len in simp_all)
    qed
  qed
qed simp_all

lemma scan_runs_nonempty_runs:
  "\<forall>s \<in> set sequences. s \<noteq> [] \<Longrightarrow> \<forall>s \<in> set (scan_runs incr ps current sequences). s \<noteq> []"
proof (induction incr ps current sequences rule: scan_runs.induct)
  case (1 incr sett nxt rest current sequences)
  show ?case
  proof (cases "\<bar>best_order sett\<bar> = \<bar>best_order nxt\<bar> + incr")
    case True
    show ?thesis
    proof (cases "rest = []")
      case r: True
      from "1.IH" [of "(current @ [sett], sequences)" "current @ [sett]" sequences
                      "([], sequences @ [current @ [sett] @ [sett]])" "[]" "sequences @ [current @ [sett] @ [sett]]"]
        True r "1.prems"
      show ?thesis by (simp add: Let_def)
    next
      case r: False
      from "1.IH" [of "(current @ [sett], sequences)" "current @ [sett]" sequences
                      "(current @ [sett], sequences)" "current @ [sett]" sequences] True r "1.prems"
      show ?thesis by (simp add: Let_def)
    qed
  next
    case c: False
    show ?thesis
    proof (cases "rest = []")
      case r: True
      from "1.IH" [of "([], sequences @ [current @ [sett]])" "[]" "sequences @ [current @ [sett]]"
                      "([], sequences @ [current @ [sett]] @ [[sett]])" "[]" "sequences @ [current @ [sett]] @ [[sett]]"]
        c r "1.prems"
      show ?thesis by (simp add: Let_def)
    next
      case r: False
      from "1.IH" [of "([], sequences @ [current @ [sett]])" "[]" "sequences @ [current @ [sett]]"
                      "([], sequences @ [current @ [sett]])" "[]" "sequences @ [current @ [sett]]"] c r "1.prems"
      show ?thesis by (simp add: Let_def)
    qed
  qed
qed simp_all

lemma scan_runs_subset:
  "set (concat (scan_runs incr ps current sequences)) \<subseteq> set (concat sequences) \<union> set current \<union> set ps"
proof (induction incr ps current sequences rule: scan_runs.induct)
  case (1 incr sett nxt rest current sequences)
  show ?case
  proof (cases "\<bar>best_order sett\<bar> = \<bar>best_order nxt\<bar> + incr")
    case True
    show ?thesis
    proof (cases "rest = []")
      case r: True
      then show ?thesis using True by (auto simp add: Let_def)
    next
      case r: False
      from "1.IH" [of "(current @ [sett], sequences)" "current @ [sett]" sequences
                      "(current @ [sett], sequences)" "current @ [sett]" sequences] True r
      show ?thesis by (auto simp add: Let_def)
    qed
  next
    case c: False
    show ?thesis
    proof (cases "rest = []")
      case r: True
      then show ?thesis using c by (auto simp add: Let_def)
    next
      case r: False
      from "1.IH" [of "([], sequences @ [current @ [sett]])" "[]" "sequences @ [current @ [sett]]"
                      "([], sequences @ [current @ [sett]])" "[]" "sequences @ [current @ [sett]]"] c r
      show ?thesis by (auto simp add: Let_def)
    qed
  qed
qed auto





text \<open>C10 (amended). For at least two best matches, the runs of the scan, put end to end, are
  the best matches without the last one, followed by a second copy of the last but one: the
  final best match is at no position of any run. The second copy goes to the run that is
  open when the scan ends: if the orders of the last two best matches are consecutive, the
  last run ends with the last-but-one best match twice; otherwise the last run is a
  single-element run holding it, and it also ends the run before.\<close>

theorem scan_runs_cover_all_but_last:
  assumes "2 \<le> length pairs_orders"
  shows "concat (scan_runs incr pairs_orders [] [])
           = butlast pairs_orders @ [last (butlast pairs_orders)]
         \<and> scan_runs incr pairs_orders [] [] \<noteq> []
         \<and> (if \<bar>best_order (last (butlast pairs_orders))\<bar> = \<bar>best_order (last pairs_orders)\<bar> + incr
            then \<exists>pre. last (scan_runs incr pairs_orders [] [])
                         = pre @ [last (butlast pairs_orders), last (butlast pairs_orders)]
            else last (scan_runs incr pairs_orders [] []) = [last (butlast pairs_orders)])"
  using concat_scan_runs [OF assms, of incr "[]" "[]"] last_scan_runs [OF assms, of incr "[]" "[]"]
  by simp

theorem scan_runs_cover_all_but_last_witness:
  "2 \<le> length [\<lparr>obs_period = 3, best_match = 3, best_order = - 5, best_chisq = 0\<rparr>,
                 \<lparr>obs_period = 2, best_match = 2, best_order = - 3, best_chisq = 0\<rparr>]
   \<and> scan_runs 1 [\<lparr>obs_period = 3, best_match = 3, best_order = - 5, best_chisq = 0\<rparr>,
                   \<lparr>obs_period = 2, best_match = 2, best_order = - 3, best_chisq = 0\<rparr>] [] []
       = [[\<lparr>obs_period = 3, best_match = 3, best_order = - 5, best_chisq = 0\<rparr>],
          [\<lparr>obs_period = 3, best_match = 3, best_order = - 5, best_chisq = 0\<rparr>]]"
  using scan_runs_cover_all_but_last
    [of "[\<lparr>obs_period = 3, best_match = 3, best_order = - 5, best_chisq = 0\<rparr>,
          \<lparr>obs_period = 2, best_match = 2, best_order = - 3, best_chisq = 0\<rparr>]" 1]
  by simp

theorem last_match_not_extra_run_counterexample:
  "best_matches [3, 2] [- 3, - 2] [1, 1] 0 [3, 2]
     = Inr [\<lparr>obs_period = 3, best_match = 3, best_order = - 3, best_chisq = 0\<rparr>,
            \<lparr>obs_period = 2, best_match = 2, best_order = - 2, best_chisq = 0\<rparr>]
   \<and> increase_or_decrease [- 3, - 2] = Inr 1
   \<and> scan_runs 1 [\<lparr>obs_period = 3, best_match = 3, best_order = - 3, best_chisq = 0\<rparr>,
                   \<lparr>obs_period = 2, best_match = 2, best_order = - 2, best_chisq = 0\<rparr>] [] []
       = [[\<lparr>obs_period = 3, best_match = 3, best_order = - 3, best_chisq = 0\<rparr>,
           \<lparr>obs_period = 3, best_match = 3, best_order = - 3, best_chisq = 0\<rparr>]]
   \<and> last (scan_runs 1 [\<lparr>obs_period = 3, best_match = 3, best_order = - 3, best_chisq = 0\<rparr>,
                         \<lparr>obs_period = 2, best_match = 2, best_order = - 2, best_chisq = 0\<rparr>] [] [])
       \<noteq> [\<lparr>obs_period = 3, best_match = 3, best_order = - 3, best_chisq = 0\<rparr>]"
  by (simp add: best_pair_def chisqs_of_def np_where_def upt_rec increase_or_decrease_def)

section \<open>Auxiliary facts about the alignment\<close>

lemma collect_Inr:
  "collect rs = Inr vs \<Longrightarrow> length vs = length rs \<and> (\<forall>i < length rs. rs ! i = Inr (vs ! i))"
proof (induction rs arbitrary: vs)
  case Nil
  then show ?case by simp
next
  case (Cons r rs)
  from Cons.prems obtain v vs' where r: "r = Inr v" and vs': "collect rs = Inr vs'" and vs: "vs = v # vs'"
    by (auto split: sum.splits)
  from Cons.IH [OF vs'] have len: "length vs' = length rs" and nth: "\<forall>i < length rs. rs ! i = Inr (vs' ! i)"
    by auto
  show ?case
  proof (intro conjI allI impI)
    show "length vs = length (r # rs)" using len vs by simp
  next
    fix i assume "i < length (r # rs)"
    then show "(r # rs) ! i = Inr (vs ! i)" using r vs nth by (cases i) auto
  qed
qed

lemma collect_total:
  "\<forall>r \<in> set rs. \<exists>v. r = Inr v \<Longrightarrow> \<exists>vs. collect rs = Inr vs"
proof (induction rs)
  case Nil
  then show ?case by simp
next
  case (Cons r rs)
  then obtain v vs where "r = Inr v" "collect rs = Inr vs" by auto
  then show ?case by simp
qed

lemma align_Inr:
  assumes "align tperiods orders start n = Inr aligned"
  shows "length aligned = n"
    and "\<forall>i < n. aligned_entry tperiods orders start i = Inr (aligned ! i)"
  using collect_Inr [OF assms [unfolded align_def]] by simp_all

lemma aligned_entry_Inr:
  assumes "aligned_entry tperiods orders start i = Inr (p, k)"
  shows "(p, k) = (if 0 \<le> start + int i \<and> start + int i < int (length tperiods)
                   then (tperiods ! nat (start + int i), orders ! nat (start + int i))
                   else (- 1, - 1))"
    and "0 \<le> start + int i \<Longrightarrow> start + int i < int (length tperiods)
           \<Longrightarrow> nat (start + int i) < length orders"
  using assms by (auto simp: aligned_entry_def Let_def split: if_splits)

lemma aligned_entry_total:
  assumes "length tperiods \<le> length orders"
  shows "\<exists>v. aligned_entry tperiods orders start i = Inr v"
  using assms by (auto simp: aligned_entry_def Let_def)

lemma align_total:
  assumes "length tperiods \<le> length orders"
  shows "\<exists>aligned. align tperiods orders start n = Inr aligned"
  unfolding align_def using aligned_entry_total [OF assms] by (intro collect_total) auto

lemma chisq_longest_sequence_stages:
  assumes "chisq_longest_sequence tperiods orders operiods operiods_errors = Inr (c, ps, os)"
    and "\<not> length tperiods < length operiods"
  shows "\<exists>pairs_orders incr first rest obs_ordering_ind thr_ordering_ind aligned.
           best_matches tperiods orders operiods_errors 0 operiods = Inr pairs_orders
           \<and> increase_or_decrease orders = Inr incr
           \<and> select_run (scan_runs incr pairs_orders [] []) = Inr (first # rest)
           \<and> first_index operiods (obs_period first) = Inr obs_ordering_ind
           \<and> first_index tperiods (best_match first) = Inr thr_ordering_ind
           \<and> align tperiods orders (int thr_ordering_ind - int obs_ordering_ind) (length operiods) = Inr aligned
           \<and> ps = map fst aligned \<and> os = map snd aligned"
  using assms unfolding chisq_longest_sequence_def
  by (simp split: sum.splits list.splits)


subsection \<open>Strategy B returns on well-formed input\<close>

text \<open>When the theoretical list is at least as long as the observed segment, the segment
  has at least two periods, and the order and error lists have the lengths of the period
  lists they belong to, every step of the matching branch succeeds.\<close>

lemma select_run_mem:
  assumes "sequences \<noteq> []"
  shows "\<exists>lseq \<in> set sequences. select_run sequences = Inr lseq"
proof -
  let ?len_list = "map length sequences"
  have "map real ?len_list \<noteq> []" using assms by simp
  then obtain m where m: "py_max (map real ?len_list) = Inr m"
    using py_max_nonempty by blast
  let ?longest = "np_where (\<lambda>l. real l = m) ?len_list"
  have sub: "\<And>i. i \<in> set ?longest \<Longrightarrow> i < length sequences"
    by (simp add: set_np_where)
  from py_max_Inr(1) [OF m] obtain i0 where "i0 < length sequences" "real (length (sequences ! i0)) = m"
    by (auto simp: in_set_conv_nth)
  then have "i0 \<in> set ?longest" by (simp add: set_np_where)
  then have ne: "?longest \<noteq> []" by auto
  show ?thesis
  proof (cases "length ?longest = 1")
    case True
    then obtain i where l: "?longest = [i]" by (cases ?longest) auto
    then have "i \<in> set ?longest" by simp
    then have "sequences ! i \<in> set sequences" using sub by simp
    moreover have "select_run sequences = Inr (sequences ! i)"
      using m l by (simp add: select_run_def Let_def)
    ultimately show ?thesis by blast
  next
    case False
    let ?scores = "map (\<lambda>ii. score (sequences ! ii)) ?longest"
    have "?scores \<noteq> []" using ne by simp
    then obtain s where s: "py_min ?scores = Inr s" using py_min_nonempty by blast
    have "s \<in> set ?scores" by (rule py_min_Inr(1) [OF s])
    from first_index_mem [OF this] obtain ms where ms: "first_index ?scores s = Inr ms" ..
    have "ms < length ?longest" using first_index_Inr(1) [OF ms] by simp
    then have "?longest ! ms \<in> set ?longest" by simp
    then have "sequences ! (?longest ! ms) \<in> set sequences" using sub by simp
    moreover have "select_run sequences = Inr (sequences ! (?longest ! ms))"
      using m False s ms by (simp add: select_run_def Let_def)
    ultimately show ?thesis by blast
  qed
qed

lemma length_spacing:
  "length (fst (generate_spacing_series periods errors)) = length periods - 1"
  "length (the (snd (generate_spacing_series periods (Some errs)))) = length errs - 1"
  by (simp_all add: generate_spacing_series_def)

lemma series_chi2_of_total:
  assumes "length operiods_errors = length operiods" and "length final = length operiods"
  shows "\<exists>c. series_chi2_of operiods operiods_errors final = Inr c"
  using assms by (simp add: series_chi2_of_def Let_def np_broadcast_def length_spacing)

lemma chisq_longest_sequence_returns:
  assumes "length operiods \<le> length tperiods" and "2 \<le> length operiods"
    and "length orders = length tperiods" and "length operiods_errors = length operiods"
  shows "\<exists>series_chi2 final_theoretical_periods corresponding_orders.
           chisq_longest_sequence tperiods orders operiods operiods_errors
             = Inr (series_chi2, final_theoretical_periods, corresponding_orders)"
proof -
  have tne: "tperiods \<noteq> []" using assms(1,2) by auto
  have ol: "length tperiods \<le> length orders" using assms(3) by simp
  obtain pairs_orders where pairs: "best_matches tperiods orders operiods_errors 0 operiods = Inr pairs_orders"
    using best_matches_total [OF tne ol, of 0 operiods operiods_errors] assms(4) by auto
  note bm = best_matches_Inr [OF pairs]
  have plen: "2 \<le> length pairs_orders" using bm assms(2) by simp
  obtain incr where incr: "increase_or_decrease orders = Inr incr"
    using assms(1,2,3) by (simp add: increase_or_decrease_def)
  let ?sequences = "scan_runs incr pairs_orders [] []"
  have "?sequences \<noteq> []" using last_scan_runs [OF plen, of incr "[]" "[]"] by simp
  from select_run_mem [OF this] obtain lseq where lseq: "lseq \<in> set ?sequences"
    and sel: "select_run ?sequences = Inr lseq" by blast
  have "lseq \<noteq> []" using scan_runs_nonempty_runs [of "[]" incr pairs_orders "[]"] lseq by auto
  then obtain first rest where fr: "lseq = first # rest" by (cases lseq) auto
  have "first \<in> set lseq" using fr by simp
  with lseq have "first \<in> set (concat ?sequences)" by auto
  then have "first \<in> set pairs_orders" using scan_runs_subset [of incr pairs_orders "[]" "[]"] by auto
  then obtain n where n: "n < length pairs_orders" "pairs_orders ! n = first"
    by (auto simp: in_set_conv_nth)
  then have bp: "best_pair tperiods orders (operiods ! n) (operiods_errors ! n) = Inr first"
    and nl: "n < length operiods"
    using bm by auto
  from best_pair_Inr [OF bp] obtain k where k: "k < length tperiods"
    and f: "obs_period first = operiods ! n" "best_match first = tperiods ! k"
    by auto
  have "obs_period first \<in> set operiods" using f(1) nl by simp
  from first_index_mem [OF this] obtain obs_ordering_ind where
    oi: "first_index operiods (obs_period first) = Inr obs_ordering_ind" ..
  have "best_match first \<in> set tperiods" using f(2) k by simp
  from first_index_mem [OF this] obtain thr_ordering_ind where
    ti: "first_index tperiods (best_match first) = Inr thr_ordering_ind" ..
  obtain aligned where
    al: "align tperiods orders (int thr_ordering_ind - int obs_ordering_ind) (length operiods) = Inr aligned"
    using align_total [OF ol] by blast
  have "length (map fst aligned) = length operiods" using align_Inr(1) [OF al] by simp
  from series_chi2_of_total [OF assms(4) this] obtain c where
    c: "series_chi2_of operiods operiods_errors (map fst aligned) = Inr c" ..
  show ?thesis
    using assms(1) pairs incr sel fr oi ti al c by (simp add: chisq_longest_sequence_def)
qed

text \<open>C5. Whenever Strategy B returns from its matching branch, the selected run \<open>lseq\<close>
  (with first row \<open>first\<close>) fixes the offset: the first index of \<open>first\<close>'s matched
  theoretical value in the theoretical list minus the first index of its observed value in
  the observed segment. Both result lists have the length of the observed segment, and
  observed index \<open>i\<close> holds the theoretical period and order at theoretical index
  offset + \<open>i\<close> when that index lies within the theoretical list, and the sentinel pair
  \<open>(-1, -1)\<close> when it is below 0 or at or beyond the length of the theoretical list.
  (That the function does return from this branch on well-formed input is
  \<open>chisq_longest_sequence_returns\<close>.)\<close>

theorem alignment_reads_offset_indices:
  assumes "chisq_longest_sequence tperiods orders operiods operiods_errors
             = Inr (series_chi2, final_theoretical_periods, corresponding_orders)"
    and "\<not> length tperiods < length operiods"
  shows "\<exists>pairs_orders incr first rest obs_ordering_ind thr_ordering_ind.
           best_matches tperiods orders operiods_errors 0 operiods = Inr pairs_orders
           \<and> increase_or_decrease orders = Inr incr
           \<and> select_run (scan_runs incr pairs_orders [] []) = Inr (first # rest)
           \<and> first_index operiods (obs_period first) = Inr obs_ordering_ind
           \<and> first_index tperiods (best_match first) = Inr thr_ordering_ind
           \<and> length final_theoretical_periods = length operiods
           \<and> length corresponding_orders = length operiods
           \<and> (\<forall>i < length operiods.
                 (final_theoretical_periods ! i, corresponding_orders ! i) =
                   (if 0 \<le> int thr_ordering_ind - int obs_ordering_ind + int i
                       \<and> int thr_ordering_ind - int obs_ordering_ind + int i < int (length tperiods)
                    then (tperiods ! nat (int thr_ordering_ind - int obs_ordering_ind + int i),
                          orders ! nat (int thr_ordering_ind - int obs_ordering_ind + int i))
                    else (- 1, - 1)))"
proof -
  from chisq_longest_sequence_stages [OF assms]
  obtain pairs_orders incr first rest obs_ordering_ind thr_ordering_ind aligned where
    st: "best_matches tperiods orders operiods_errors 0 operiods = Inr pairs_orders"
      "increase_or_decrease orders = Inr incr"
      "select_run (scan_runs incr pairs_orders [] []) = Inr (first # rest)"
      "first_index operiods (obs_period first) = Inr obs_ordering_ind"
      "first_index tperiods (best_match first) = Inr thr_ordering_ind"
    and al: "align tperiods orders (int thr_ordering_ind - int obs_ordering_ind) (length operiods) = Inr aligned"
    and out: "final_theoretical_periods = map fst aligned" "corresponding_orders = map snd aligned"
    by blast
  let ?start = "int thr_ordering_ind - int obs_ordering_ind"
  have len: "length aligned = length operiods" by (rule align_Inr(1) [OF al])
  have l1: "length final_theoretical_periods = length operiods"
    and l2: "length corresponding_orders = length operiods"
    using len out by simp_all
  have main: "\<forall>i < length operiods.
          (final_theoretical_periods ! i, corresponding_orders ! i) =
            (if 0 \<le> ?start + int i \<and> ?start + int i < int (length tperiods)
             then (tperiods ! nat (?start + int i), orders ! nat (?start + int i))
             else (- 1, - 1))"
  proof (intro allI impI)
    fix i assume i: "i < length operiods"
    then have "aligned_entry tperiods orders ?start i = Inr (fst (aligned ! i), snd (aligned ! i))"
      using align_Inr(2) [OF al] by simp
    from aligned_entry_Inr(1) [OF this] i len out
    show "(final_theoretical_periods ! i, corresponding_orders ! i) =
            (if 0 \<le> ?start + int i \<and> ?start + int i < int (length tperiods)
             then (tperiods ! nat (?start + int i), orders ! nat (?start + int i))
             else (- 1, - 1))"
      by simp
  qed
  show ?thesis using st l1 l2 main by blast
qed

theorem alignment_reads_offset_indices_witness:
  "chisq_longest_sequence [3, 2] [- 13, - 12] [2, 1] [1, 1] = Inr (2, [2, - 1], [- 12, - 1])
   \<and> \<not> length [3 :: real, 2] < length [2 :: real, 1]
   \<and> first_index [2 :: real, 1] 2 = Inr 0 \<and> first_index [3 :: real, 2] 2 = Inr 1"
proof -
  have r: "chisq_longest_sequence [3, 2] [- 13, - 12] [2, 1] [1, 1] = Inr (2, [2, - 1], [- 12, - 1])"
    by (simp add: chisq_longest_sequence_def best_pair_def chisqs_of_def np_where_def
        increase_or_decrease_def select_run_def score_def first_index_def align_def
        aligned_entry_def series_chi2_of_def generate_spacing_series_def np_broadcast_def upt_rec
          power_divide)
  have l: "\<not> length [3 :: real, 2] < length [2 :: real, 1]" by simp
  show ?thesis
    using alignment_reads_offset_indices [OF r l] r
    by (simp add: first_index_def np_where_def upt_rec)
qed

text \<open>C3 (amended). If the radial orders of the theoretical pattern are consecutive, each
  being its predecessor plus the step (\<open>+1\<close> or \<open>-1\<close>), then in every result of Strategy B
  two adjacent entries of the order list that are both different from the sentinel differ by
  exactly that step, and the step is the one the function derives from the first two orders.\<close>

theorem consecutive_orders_give_consecutive_matches:
  assumes "chisq_longest_sequence tperiods orders operiods operiods_errors
             = Inr (series_chi2, final_theoretical_periods, corresponding_orders)"
    and "\<forall>j. Suc j < length orders \<longrightarrow> orders ! Suc j = orders ! j + step"
    and "step = 1 \<or> step = - 1"
  shows "(\<forall>i. Suc i < length corresponding_orders
               \<longrightarrow> corresponding_orders ! i \<noteq> - 1 \<longrightarrow> corresponding_orders ! Suc i \<noteq> - 1
               \<longrightarrow> corresponding_orders ! Suc i = corresponding_orders ! i + step)
         \<and> (2 \<le> length orders \<longrightarrow> increase_or_decrease orders = Inr step)"
proof (intro conjI allI impI)
  assume "2 \<le> length orders"
  with assms(2) have "orders ! 1 = orders ! 0 + step" by simp
  with assms(3) \<open>2 \<le> length orders\<close> show "increase_or_decrease orders = Inr step"
    by (auto simp: increase_or_decrease_def)
next
  fix i assume i: "Suc i < length corresponding_orders"
    and a: "corresponding_orders ! i \<noteq> - 1" and b: "corresponding_orders ! Suc i \<noteq> - 1"
  show "corresponding_orders ! Suc i = corresponding_orders ! i + step"
  proof (cases "length tperiods < length operiods")
    case True
    with assms(1) have "corresponding_orders = replicate (length operiods) (- 1)"
      by (simp add: chisq_longest_sequence_def)
    with i a show ?thesis by simp
  next
    case False
    from chisq_longest_sequence_stages [OF assms(1) False]
    obtain start aligned where
      al: "align tperiods orders start (length operiods) = Inr aligned"
      and out: "corresponding_orders = map snd aligned"
      by blast
    have len: "length aligned = length operiods" by (rule align_Inr(1) [OF al])
    have ii: "i < length operiods" "Suc i < length operiods" using i out len by simp_all
    have e0: "aligned_entry tperiods orders start i = Inr (fst (aligned ! i), snd (aligned ! i))"
      using align_Inr(2) [OF al] ii by simp
    have e1: "aligned_entry tperiods orders start (Suc i) = Inr (fst (aligned ! Suc i), snd (aligned ! Suc i))"
      using align_Inr(2) [OF al] ii by simp
    have o0: "corresponding_orders ! i = snd (aligned ! i)"
      and o1: "corresponding_orders ! Suc i = snd (aligned ! Suc i)"
      using out ii len by simp_all
    from aligned_entry_Inr(1) [OF e0] a o0
    have r0: "0 \<le> start + int i" "start + int i < int (length tperiods)"
      and v0: "corresponding_orders ! i = orders ! nat (start + int i)"
      by (auto split: if_splits)
    from aligned_entry_Inr(1) [OF e1] b o1
    have r1: "start + int (Suc i) < int (length tperiods)"
      and v1: "corresponding_orders ! Suc i = orders ! nat (start + int (Suc i))"
      by (auto split: if_splits)
    have "nat (start + int (Suc i)) < length orders"
      using aligned_entry_Inr(2) [OF e1] r0 r1 by simp
    moreover have "nat (start + int (Suc i)) = Suc (nat (start + int i))" using r0 by simp
    ultimately have "orders ! nat (start + int (Suc i)) = orders ! nat (start + int i) + step"
      using assms(2) by simp
    with v0 v1 show ?thesis by simp
  qed
qed

theorem consecutive_orders_give_consecutive_matches_witness:
  "chisq_longest_sequence [3, 2, 1] [- 13, - 12, - 11] [2, 1] [1 / 10, 1 / 10]
     = Inr (0, [2, 1], [- 12, - 11])
   \<and> [- 13, - 12, - 11 :: int] ! 1 = [- 13, - 12, - 11] ! 0 + 1
   \<and> [- 13, - 12, - 11 :: int] ! 2 = [- 13, - 12, - 11] ! 1 + 1
   \<and> [- 12, - 11 :: int] ! Suc 0 = [- 12, - 11] ! 0 + 1
   \<and> increase_or_decrease [- 13, - 12, - 11] = Inr 1"
proof -
  have r: "chisq_longest_sequence [3, 2, 1] [- 13, - 12, - 11] [2, 1] [1 / 10, 1 / 10]
             = Inr (0, [2, 1], [- 12, - 11])"
    by (simp add: chisq_longest_sequence_def best_pair_def chisqs_of_def np_where_def
        increase_or_decrease_def select_run_def score_def first_index_def align_def
        aligned_entry_def series_chi2_of_def generate_spacing_series_def np_broadcast_def upt_rec)
  have c: "\<forall>j. Suc j < length [- 13, - 12, - 11 :: int]
               \<longrightarrow> [- 13, - 12, - 11 :: int] ! Suc j = [- 13, - 12, - 11] ! j + 1"
  proof (intro allI impI)
    fix j assume "Suc j < length [- 13, - 12, - 11 :: int]"
    then have "j = 0 \<or> j = 1" by auto
    then show "[- 13, - 12, - 11 :: int] ! Suc j = [- 13, - 12, - 11] ! j + 1" by auto
  qed
  have s: "(1 :: int) = 1 \<or> (1 :: int) = - 1" by simp
  show ?thesis
    using consecutive_orders_give_consecutive_matches [OF r c s] r by simp
qed

theorem strictly_monotonic_orders_counterexample:
  "chisq_longest_sequence [3, 2, 1] [- 13, - 12, - 10] [2, 1] [1 / 10, 1 / 10]
     = Inr (0, [2, 1], [- 12, - 10])
   \<and> sorted_wrt (<) [- 13, - 12, - 10 :: int]
   \<and> (- 10 :: int) \<noteq> - 12 + 1 \<and> (- 10 :: int) \<noteq> - 12 - 1"
  by (simp add: chisq_longest_sequence_def best_pair_def chisqs_of_def np_where_def
        increase_or_decrease_def select_run_def score_def first_index_def align_def
        aligned_entry_def series_chi2_of_def generate_spacing_series_def np_broadcast_def upt_rec)

section \<open>Auxiliary facts about the anchor strategy\<close>

lemma first_index_eqI:
  assumes "i < length xs" and "xs ! i = v" and "\<forall>j < i. xs ! j \<noteq> v"
  shows "first_index xs v = Inr i"
proof -
  have "v \<in> set xs" using assms(1,2) by auto
  from first_index_mem [OF this] obtain k where k: "first_index xs v = Inr k" ..
  have "k = i"
  proof (rule ccontr)
    assume "k \<noteq> i"
    then consider "k < i" | "i < k" by linarith
    then show False
      using first_index_Inr(2,3) [OF k] assms(2,3) by cases auto
  qed
  with k show ?thesis by simp
qed

lemma nth_maybe_append: "n < length xs \<Longrightarrow> (if c then xs @ ys else xs) ! n = xs ! n"
  by (simp add: nth_append)

lemma puls_series_shape:
  assumes nth: "nth_obs < length Obs" and idx: "index < length TheoIn"
  shows "length
           (let upper = index + (length Obs - nth_obs);
                Theo_sequence =
                  (if int index - int nth_obs < 0
                   then replicate (nat \<bar>int index - int nth_obs\<bar>) (- 1) @ take upper TheoIn
                   else drop (index - nth_obs) (take upper TheoIn))
            in (if upper > length TheoIn
                then Theo_sequence @ replicate (upper - length TheoIn) (- 1 :: real)
                else Theo_sequence)) = length Obs"
    and "(let upper = index + (length Obs - nth_obs);
                Theo_sequence =
                  (if int index - int nth_obs < 0
                   then replicate (nat \<bar>int index - int nth_obs\<bar>) (- 1) @ take upper TheoIn
                   else drop (index - nth_obs) (take upper TheoIn))
            in (if upper > length TheoIn
                then Theo_sequence @ replicate (upper - length TheoIn) (- 1 :: real)
                else Theo_sequence)) ! nth_obs = TheoIn ! index"
proof -
  let ?upper = "index + (length Obs - nth_obs)"
  have up: "index < ?upper" using nth by simp
  show "length
           (let upper = index + (length Obs - nth_obs);
                Theo_sequence =
                  (if int index - int nth_obs < 0
                   then replicate (nat \<bar>int index - int nth_obs\<bar>) (- 1) @ take upper TheoIn
                   else drop (index - nth_obs) (take upper TheoIn))
            in (if upper > length TheoIn
                then Theo_sequence @ replicate (upper - length TheoIn) (- 1 :: real)
                else Theo_sequence)) = length Obs"
    using nth idx by (auto simp: Let_def min_def)
  show "(let upper = index + (length Obs - nth_obs);
                Theo_sequence =
                  (if int index - int nth_obs < 0
                   then replicate (nat \<bar>int index - int nth_obs\<bar>) (- 1) @ take upper TheoIn
                   else drop (index - nth_obs) (take upper TheoIn))
            in (if upper > length TheoIn
                then Theo_sequence @ replicate (upper - length TheoIn) (- 1 :: real)
                else Theo_sequence)) ! nth_obs = TheoIn ! index"
  proof (cases "int index - int nth_obs < 0")
    case True
    then have lt: "index < nth_obs" by simp
    then have n: "nat \<bar>int index - int nth_obs\<bar> = nth_obs - index" by simp
    let ?seq = "replicate (nth_obs - index) (- 1 :: real) @ take ?upper TheoIn"
    have a: "?seq ! nth_obs = TheoIn ! index"
      using lt up idx by (auto simp: nth_append)
    have b: "nth_obs < length ?seq"
      using lt up idx by (auto simp: min_def)
    have "(let upper = index + (length Obs - nth_obs);
                Theo_sequence =
                  (if int index - int nth_obs < 0
                   then replicate (nat \<bar>int index - int nth_obs\<bar>) (- 1) @ take upper TheoIn
                   else drop (index - nth_obs) (take upper TheoIn))
            in (if upper > length TheoIn
                then Theo_sequence @ replicate (upper - length TheoIn) (- 1 :: real)
                else Theo_sequence)) ! nth_obs
          = (if ?upper > length TheoIn then ?seq @ replicate (?upper - length TheoIn) (- 1) else ?seq) ! nth_obs"
      using True n by (simp add: Let_def)
    also have "\<dots> = ?seq ! nth_obs" by (rule nth_maybe_append [OF b])
    also have "\<dots> = TheoIn ! index" by (rule a)
    finally show ?thesis .
  next
    case False
    then have ge: "nth_obs \<le> index" by simp
    let ?seq = "drop (index - nth_obs) (take ?upper TheoIn)"
    have "index - nth_obs \<le> length (take ?upper TheoIn)" using up idx by (auto simp: min_def)
    then have "?seq ! nth_obs = take ?upper TheoIn ! (index - nth_obs + nth_obs)" by (rule nth_drop)
    moreover have "index - nth_obs + nth_obs = index" using ge by simp
    moreover have "take ?upper TheoIn ! index = TheoIn ! index" using up by (rule nth_take)
    ultimately have a: "?seq ! nth_obs = TheoIn ! index" by simp
    have b: "nth_obs < length ?seq"
      using ge up idx nth by (auto simp: min_def)
    have "(let upper = index + (length Obs - nth_obs);
                Theo_sequence =
                  (if int index - int nth_obs < 0
                   then replicate (nat \<bar>int index - int nth_obs\<bar>) (- 1) @ take upper TheoIn
                   else drop (index - nth_obs) (take upper TheoIn))
            in (if upper > length TheoIn
                then Theo_sequence @ replicate (upper - length TheoIn) (- 1 :: real)
                else Theo_sequence)) ! nth_obs
          = (if ?upper > length TheoIn then ?seq @ replicate (?upper - length TheoIn) (- 1) else ?seq) ! nth_obs"
      using False by (simp add: Let_def)
    also have "\<dots> = ?seq ! nth_obs" by (rule nth_maybe_append [OF b])
    also have "\<dots> = TheoIn ! index" by (rule a)
    finally show ?thesis .
  qed
qed

lemma puls_series_entries:
  assumes nth: "nth_obs < length Obs" and idx: "index < length TheoIn" and j: "j < length Obs"
  shows "(let upper = index + (length Obs - nth_obs);
              Theo_sequence =
                (if int index - int nth_obs < 0
                 then replicate (nat \<bar>int index - int nth_obs\<bar>) (- 1) @ take upper TheoIn
                 else drop (index - nth_obs) (take upper TheoIn))
          in (if upper > length TheoIn
              then Theo_sequence @ replicate (upper - length TheoIn) (- 1 :: real)
              else Theo_sequence)) ! j
         = (if nth_obs \<le> index + j \<and> index + j - nth_obs < length TheoIn
            then TheoIn ! (index + j - nth_obs) else - 1)"
proof -
  let ?upper = "index + (length Obs - nth_obs)"
  let ?tail = "replicate (?upper - length TheoIn) (- 1 :: real)"
  have below: "nth_obs \<le> index + j \<Longrightarrow> index + j - nth_obs < ?upper" using nth j by simp
  show ?thesis
  proof (cases "int index - int nth_obs < 0")
    case True
    then have lt: "index < nth_obs" by simp
    then have n: "nat \<bar>int index - int nth_obs\<bar> = nth_obs - index" by simp
    let ?lead = "replicate (nth_obs - index) (- 1 :: real)"
    have whole: "(let upper = index + (length Obs - nth_obs);
              Theo_sequence =
                (if int index - int nth_obs < 0
                 then replicate (nat \<bar>int index - int nth_obs\<bar>) (- 1) @ take upper TheoIn
                 else drop (index - nth_obs) (take upper TheoIn))
          in (if upper > length TheoIn
              then Theo_sequence @ replicate (upper - length TheoIn) (- 1 :: real)
              else Theo_sequence))
          = ?lead @ take ?upper TheoIn @ ?tail"
      using True n by (simp add: Let_def)
    show ?thesis
    proof (cases "nth_obs \<le> index + j")
      case False
      then have "j < nth_obs - index" by simp
      then have "(?lead @ take ?upper TheoIn @ ?tail) ! j = - 1" by (simp add: nth_append)
      with False whole show ?thesis by simp
    next
      case ge: True
      then have jj: "\<not> j < nth_obs - index" and e: "j - (nth_obs - index) = index + j - nth_obs"
        using lt by simp_all
      have a: "(?lead @ take ?upper TheoIn @ ?tail) ! j = (take ?upper TheoIn @ ?tail) ! (index + j - nth_obs)"
        using jj e by (simp add: nth_append)
      show ?thesis
      proof (cases "index + j - nth_obs < length TheoIn")
        case True
        then have "index + j - nth_obs < length (take ?upper TheoIn)" using below [OF ge] by simp
        then have "(take ?upper TheoIn @ ?tail) ! (index + j - nth_obs) = take ?upper TheoIn ! (index + j - nth_obs)"
          by (simp only: nth_append if_True)
        also have "\<dots> = TheoIn ! (index + j - nth_obs)" using below [OF ge] by (rule nth_take)
        finally show ?thesis using a whole ge True by simp
      next
        case False
        then have l: "length (take ?upper TheoIn) = length TheoIn" using below [OF ge] by simp
        have "(take ?upper TheoIn @ ?tail) ! (index + j - nth_obs)
                = ?tail ! (index + j - nth_obs - length TheoIn)"
          using False l by (simp add: nth_append)
        also have "\<dots> = - 1" using False below [OF ge] by simp
        finally show ?thesis using a whole ge False by simp
      qed
    qed
  next
    case False
    then have ge: "nth_obs \<le> index" by simp
    then have e: "index - nth_obs + j = index + j - nth_obs" by simp
    have le: "nth_obs \<le> index + j" using ge by simp
    have whole: "(let upper = index + (length Obs - nth_obs);
              Theo_sequence =
                (if int index - int nth_obs < 0
                 then replicate (nat \<bar>int index - int nth_obs\<bar>) (- 1) @ take upper TheoIn
                 else drop (index - nth_obs) (take upper TheoIn))
          in (if upper > length TheoIn
              then Theo_sequence @ replicate (upper - length TheoIn) (- 1 :: real)
              else Theo_sequence))
          = drop (index - nth_obs) (take ?upper TheoIn) @ ?tail"
      using False by (simp add: Let_def)
    have dl: "index - nth_obs \<le> length (take ?upper TheoIn)" using idx nth by (auto simp: min_def)
    show ?thesis
    proof (cases "index + j - nth_obs < length TheoIn")
      case True
      then have "j < length (drop (index - nth_obs) (take ?upper TheoIn))"
        using below [OF le] ge by (auto simp: min_def)
      then have "(drop (index - nth_obs) (take ?upper TheoIn) @ ?tail) ! j
                   = drop (index - nth_obs) (take ?upper TheoIn) ! j"
        by (simp only: nth_append if_True)
      also have "\<dots> = take ?upper TheoIn ! (index - nth_obs + j)" using dl by (rule nth_drop)
      also have "\<dots> = TheoIn ! (index + j - nth_obs)" using below [OF le] e by simp
      finally show ?thesis using whole le True by simp
    next
      case F: False
      then have l: "length (drop (index - nth_obs) (take ?upper TheoIn)) = length TheoIn - (index - nth_obs)"
        using below [OF le] by simp
      have nj: "\<not> j < length TheoIn - (index - nth_obs)" using F ge by linarith
      have "(drop (index - nth_obs) (take ?upper TheoIn) @ ?tail) ! j
              = ?tail ! (j - (length TheoIn - (index - nth_obs)))"
        using nj l by (simp add: nth_append)
      also have "\<dots> = - 1"
      proof (rule nth_replicate)
        show "j - (length TheoIn - (index - nth_obs)) < ?upper - length TheoIn"
          using F below [OF le] ge idx by linarith
      qed
      finally show ?thesis using whole le F by simp
    qed
  qed
qed

text \<open>C9. If the value to build from occurs in the observed segment and in the theoretical
  array, \<open>puls_series_from_given_puls\<close> returns a sequence determined as follows. \<open>nth_obs\<close>
  is the first observed index holding the value; \<open>index\<close> is the lowest theoretical index
  holding it, which is the lowest index among those closest to the value (its distance is
  minimal, and strictly smaller than that of every earlier index). The sequence has the
  length of the observed segment, and its entry at observed index \<open>j\<close> is the theoretical
  element at index \<open>index - nth_obs + j\<close> when that index lies within the theoretical array,
  and the sentinel \<open>-1\<close> otherwise. In particular its entry at \<open>nth_obs\<close> is the theoretical
  element at \<open>index\<close>, the value itself.\<close>

theorem anchor_aligned_exactly:
  assumes "Obs_to_build_from \<in> set Obs" and "Obs_to_build_from \<in> set TheoIn"
  shows "\<exists>Theo_sequence nth_obs index.
           puls_series_from_given_puls TheoIn Obs Obs_to_build_from = Inr Theo_sequence
           \<and> first_index Obs Obs_to_build_from = Inr nth_obs
           \<and> first_index TheoIn Obs_to_build_from = Inr index
           \<and> (\<forall>k < length TheoIn.
                 \<bar>TheoIn ! index - Obs_to_build_from\<bar> \<le> \<bar>TheoIn ! k - Obs_to_build_from\<bar>)
           \<and> (\<forall>k < index.
                 \<bar>TheoIn ! index - Obs_to_build_from\<bar> < \<bar>TheoIn ! k - Obs_to_build_from\<bar>)
           \<and> length Theo_sequence = length Obs
           \<and> (\<forall>j < length Obs.
                 Theo_sequence ! j =
                   (if nth_obs \<le> index + j \<and> index + j - nth_obs < length TheoIn
                    then TheoIn ! (index + j - nth_obs) else - 1))
           \<and> Theo_sequence ! nth_obs = TheoIn ! index
           \<and> Theo_sequence ! nth_obs = Obs_to_build_from"
proof -
  let ?diff = "map (\<lambda>t. \<bar>t - Obs_to_build_from\<bar>) TheoIn"
  from first_index_mem [OF assms(1)] obtain nth_obs where
    nth: "first_index Obs Obs_to_build_from = Inr nth_obs" ..
  from first_index_mem [OF assms(2)] obtain index where
    idx: "first_index TheoIn Obs_to_build_from = Inr index" ..
  note i = first_index_Inr [OF idx]
  note n = first_index_Inr(1) [OF nth]
  have "?diff \<noteq> []" using assms(2) by auto
  then obtain m where m: "py_min ?diff = Inr m" using py_min_nonempty by blast
  have "m \<in> set ?diff" by (rule py_min_Inr(1) [OF m])
  then have "0 \<le> m" by auto
  moreover have "(0 :: real) \<in> set ?diff" using assms(2) by force
  then have "m \<le> 0" using py_min_Inr(2) [OF m] by blast
  ultimately have m0: "m = 0" by simp
  have "first_index ?diff 0 = Inr index"
  proof (rule first_index_eqI)
    show "index < length ?diff" using i(1) by simp
    show "?diff ! index = 0" using i(1,2) by simp
    show "\<forall>j < index. ?diff ! j \<noteq> 0" using i(1,3) by simp
  qed
  then have found: "first_index ?diff m = Inr index" using m0 by simp
  define Theo_sequence where "Theo_sequence =
      (let upper = index + (length Obs - nth_obs);
           Theo_sequence =
             (if int index - int nth_obs < 0
              then replicate (nat \<bar>int index - int nth_obs\<bar>) (- 1) @ take upper TheoIn
              else drop (index - nth_obs) (take upper TheoIn))
       in (if upper > length TheoIn
           then Theo_sequence @ replicate (upper - length TheoIn) (- 1 :: real)
           else Theo_sequence))"
  have res: "puls_series_from_given_puls TheoIn Obs Obs_to_build_from = Inr Theo_sequence"
    unfolding Theo_sequence_def using nth m found
    by (simp add: puls_series_from_given_puls_def Let_def)
  have len: "length Theo_sequence = length Obs"
    unfolding Theo_sequence_def by (rule puls_series_shape(1) [OF n i(1)])
  have at: "Theo_sequence ! nth_obs = TheoIn ! index"
    unfolding Theo_sequence_def by (rule puls_series_shape(2) [OF n i(1)])
  have entries: "\<forall>j < length Obs.
                   Theo_sequence ! j =
                     (if nth_obs \<le> index + j \<and> index + j - nth_obs < length TheoIn
                      then TheoIn ! (index + j - nth_obs) else - 1)"
  proof (intro allI impI)
    fix j assume "j < length Obs"
    then show "Theo_sequence ! j =
                 (if nth_obs \<le> index + j \<and> index + j - nth_obs < length TheoIn
                  then TheoIn ! (index + j - nth_obs) else - 1)"
      unfolding Theo_sequence_def by (rule puls_series_entries [OF n i(1)])
  qed
  have closest: "\<forall>k < length TheoIn.
                   \<bar>TheoIn ! index - Obs_to_build_from\<bar> \<le> \<bar>TheoIn ! k - Obs_to_build_from\<bar>"
    using i(2) by simp
  have lowest: "\<forall>k < index.
                  \<bar>TheoIn ! index - Obs_to_build_from\<bar> < \<bar>TheoIn ! k - Obs_to_build_from\<bar>"
    using i(2,3) by simp
  show ?thesis using res nth idx closest lowest len entries at i(2) by blast
qed

theorem anchor_aligned_exactly_witness:
  "(3 :: real) \<in> set [3, 2] \<and> (3 :: real) \<in> set [3, 5, 3, 1]
   \<and> puls_series_from_given_puls [3, 5, 3, 1] [3, 2] 3 = Inr [3, 5]
   \<and> first_index [3 :: real, 2] 3 = Inr 0
   \<and> first_index [3 :: real, 5, 3, 1] 3 = Inr 0
   \<and> [3 :: real, 5] ! 0 = 3"
  using anchor_aligned_exactly [of 3 "[3, 2]" "[3, 5, 3, 1]"]
  by (simp add: puls_series_from_given_puls_def first_index_def np_where_def upt_rec)

section \<open>Auxiliary facts about the assembly of the parts\<close>

lemma length_np_split_from: "length (np_split_from start ary indices) = Suc (length indices)"
  by (induction indices arbitrary: start) simp_all

lemma concat_np_split_from:
  "sorted (start # indices) \<Longrightarrow> concat (np_split_from start ary indices) = drop start ary"
proof (induction indices arbitrary: start)
  case Nil
  then show ?case by simp
next
  case (Cons i indices)
  then have le: "start \<le> i" and s: "sorted (i # indices)" by simp_all
  have "drop i ary = drop (i - start) (drop start ary)" using le by simp
  then have "take (i - start) (drop start ary) @ drop i ary = drop start ary"
    by (simp only: append_take_drop_id)
  then show ?case using Cons.IH [OF s] by simp
qed

lemma strict_sorted_nth_gap:
  fixes m :: "nat list"
  assumes "sorted m" and "distinct m"
  shows "i \<le> j \<Longrightarrow> j < length m \<Longrightarrow> m ! i + (j - i) \<le> m ! j"
proof (induction j)
  case 0
  then show ?case by simp
next
  case (Suc j)
  show ?case
  proof (cases "i = Suc j")
    case True
    then show ?thesis by simp
  next
    case False
    with Suc.prems have ij: "i \<le> j" and j: "j < length m" by simp_all
    have "m ! j \<le> m ! Suc j" using assms(1) Suc.prems(2) by (simp add: sorted_nth_mono)
    moreover have "m ! j \<noteq> m ! Suc j" using assms(2) Suc.prems(2) by (simp add: nth_eq_iff_index_eq)
    ultimately have "m ! j < m ! Suc j" by simp
    with Suc.IH [OF ij j] ij show ?thesis by simp
  qed
qed

lemma sorted_missing_puls_of: "sorted (0 # missing_puls_of Obs)"
proof -
  let ?m = "np_where (\<lambda>x. x = 0) Obs"
  have "sorted (map (\<lambda>i. ?m ! i - i) [0..<length ?m])"
  proof (subst sorted_iff_nth_mono, intro allI impI)
    fix i j assume ij: "i \<le> j" and j: "j < length (map (\<lambda>i. ?m ! i - i) [0..<length ?m])"
    then have j': "j < length ?m" by simp
    from strict_sorted_nth_gap [OF sorted_np_where distinct_np_where ij j']
    have "?m ! i + (j - i) \<le> ?m ! j" .
    then have "?m ! i - i \<le> ?m ! j - j" using ij by simp
    then show "map (\<lambda>i. ?m ! i - i) [0..<length ?m] ! i \<le> map (\<lambda>i. ?m ! i - i) [0..<length ?m] ! j"
      using ij j' by simp
  qed
  then show ?thesis by (simp add: missing_puls_of_def Let_def)
qed

lemma length_missing_puls_of:
  "0 \<in> set Obs \<Longrightarrow> 0 < length (missing_puls_of Obs)"
proof -
  assume "0 \<in> set Obs"
  then obtain i where "i < length Obs" "Obs ! i = 0" by (auto simp: in_set_conv_nth)
  then have "np_where (\<lambda>x. x = 0) Obs \<noteq> []" by (intro np_where_nonempty [of i]) auto
  then show ?thesis by (simp add: missing_puls_of_def Let_def)
qed

lemma concat_np_split_missing: "concat (np_split ary (missing_puls_of Obs)) = ary"
  using concat_np_split_from [OF sorted_missing_puls_of, of ary Obs] by (simp add: np_split_def)

lemma length_puls_series:
  assumes "puls_series_from_given_puls TheoIn Obs v = Inr seq"
  shows "length seq = length Obs"
proof -
  let ?diff = "map (\<lambda>t. \<bar>t - v\<bar>) TheoIn"
  from assms obtain nth_obs where nth: "first_index Obs v = Inr nth_obs"
    by (auto simp: puls_series_from_given_puls_def split: sum.splits)
  from assms nth obtain m where m: "py_min ?diff = Inr m"
    by (auto simp: puls_series_from_given_puls_def Let_def split: sum.splits)
  from assms nth m obtain index where idx: "first_index ?diff m = Inr index"
    by (auto simp: puls_series_from_given_puls_def Let_def split: sum.splits)
  have i: "index < length TheoIn" using first_index_Inr(1) [OF idx] by simp
  from assms nth m idx have "seq =
      (let upper = index + (length Obs - nth_obs);
           Theo_sequence =
             (if int index - int nth_obs < 0
              then replicate (nat \<bar>int index - int nth_obs\<bar>) (- 1) @ take upper TheoIn
              else drop (index - nth_obs) (take upper TheoIn))
       in (if upper > length TheoIn
           then Theo_sequence @ replicate (upper - length TheoIn) (- 1 :: real)
           else Theo_sequence))"
    by (simp add: puls_series_from_given_puls_def Let_def)
  then show ?thesis using puls_series_shape(1) [OF first_index_Inr(1) [OF nth] i] by simp
qed

lemma length_chisq_longest_sequence:
  assumes "chisq_longest_sequence tperiods orders operiods operiods_errors = Inr (c, ps, os)"
  shows "length ps = length operiods"
proof (cases "length tperiods < length operiods")
  case True
  with assms show ?thesis by (auto simp: chisq_longest_sequence_def)
next
  case False
  from chisq_longest_sequence_stages [OF assms False]
  obtain start aligned where al: "align tperiods orders start (length operiods) = Inr aligned"
    and ps: "ps = map fst aligned" by blast
  show ?thesis using align_Inr(1) [OF al] ps by simp
qed

lemma length_select_by_method:
  assumes "select_by_method which_observable method_build_series Theo_value periods orders Obs_part
             ObsPeriod ObsErr_P highest_obs_freq highest_amp_puls_part = Inr sel"
    and "length ObsPeriod = length Obs_part"
  shows "length sel = length Obs_part"
proof -
  consider (amp) "method_build_series = ''highest_amplitude''"
    | (freq) "method_build_series \<noteq> ''highest_amplitude''" "method_build_series = ''highest_frequency''"
    | (chi) "method_build_series \<noteq> ''highest_amplitude''" "method_build_series \<noteq> ''highest_frequency''"
        "method_build_series = ''chisq_longest_sequence''"
    | (other) "method_build_series \<noteq> ''highest_amplitude''" "method_build_series \<noteq> ''highest_frequency''"
        "method_build_series \<noteq> ''chisq_longest_sequence''"
    by blast
  then show ?thesis
  proof cases
    case amp
    with assms(1) obtain v where "puls_series_from_given_puls Theo_value Obs_part v = Inr sel"
      by (auto simp: select_by_method_def split: option.splits)
    then show ?thesis by (rule length_puls_series)
  next
    case freq
    with assms(1) have "puls_series_from_given_puls Theo_value Obs_part highest_obs_freq = Inr sel"
      by (simp add: select_by_method_def)
    then show ?thesis by (rule length_puls_series)
  next
    case chi
    with assms(1) obtain c ps os where r: "chisq_longest_sequence periods orders ObsPeriod ObsErr_P = Inr (c, ps, os)"
      and sel: "sel = map (\<lambda>p. 1 / p) ps \<or> sel = ps"
      by (auto simp: select_by_method_def split: sum.splits if_splits)
    from length_chisq_longest_sequence [OF r] sel assms(2) show ?thesis by auto
  next
    case other
    with assms(1) show ?thesis by (simp add: select_by_method_def)
  qed
qed

lemma select_part_Inr:
  assumes "select_part which_observable method_build_series freqs periods orders output_pulsations
             Obs_part ObsErr_part highest_amp_puls_part = Inr sel"
  shows "length sel = length Obs_part" and "Obs_part \<noteq> []"
proof -
  consider (f) "which_observable = ''frequency''"
    | (p) "which_observable \<noteq> ''frequency''" "which_observable = ''period''"
    | (other) "which_observable \<noteq> ''frequency''" "which_observable \<noteq> ''period''"
    by blast
  then have "length sel = length Obs_part \<and> Obs_part \<noteq> []"
  proof cases
    case f
    with assms obtain ObsErr_P h where h: "py_max Obs_part = Inr h"
      and s: "select_by_method which_observable method_build_series freqs periods orders Obs_part
                (map (\<lambda>x. 1 / x) Obs_part) ObsErr_P h highest_amp_puls_part = Inr sel"
      by (auto simp: select_part_def Let_def split: sum.splits)
    from h have "Obs_part \<noteq> []" by auto
    with length_select_by_method [OF s] show ?thesis by simp
  next
    case p
    with assms obtain h where h: "py_min Obs_part = Inr h"
      and s: "select_by_method which_observable method_build_series periods periods orders Obs_part
                Obs_part ObsErr_part h highest_amp_puls_part = Inr sel"
      by (auto simp: select_part_def Let_def split: sum.splits)
    from h have "Obs_part \<noteq> []" by auto
    with length_select_by_method [OF s] show ?thesis by simp
  next
    case other
    with assms show ?thesis by (simp add: select_part_def)
  qed
  then show "length sel = length Obs_part" and "Obs_part \<noteq> []" by simp_all
qed

lemma assemble_Inr:
  "assemble which_observable method_build_series freqs periods orders output_pulsations segments = Inr out \<Longrightarrow>
     length out = length output_pulsations + sum_list (map (\<lambda>(Obs_part, rest). length Obs_part) segments)
                    + (if output_pulsations = [] then length segments - 1 else length segments)
     \<and> (\<forall>(Obs_part, rest) \<in> set segments. Obs_part \<noteq> [])"
proof (induction segments arbitrary: output_pulsations)
  case Nil
  then show ?case by simp
next
  case (Cons seg segments)
  obtain Obs_part ObsErr_part amp where seg: "seg = (Obs_part, ObsErr_part, amp)" by (cases seg) auto
  let ?out1 = "if length output_pulsations > 0 then output_pulsations @ [0] else output_pulsations"
  from Cons.prems seg obtain sel where
    sel: "select_part which_observable method_build_series freqs periods orders ?out1
            Obs_part ObsErr_part amp = Inr sel"
    and rec: "assemble which_observable method_build_series freqs periods orders (?out1 @ sel) segments = Inr out"
    by (auto simp: Let_def split: sum.splits)
  note sp = select_part_Inr [OF sel]
  have ne: "?out1 @ sel \<noteq> []" using sp by auto
  from Cons.IH [OF rec] ne
  have len: "length out = length (?out1 @ sel)
               + sum_list (map (\<lambda>(Obs_part, rest). length Obs_part) segments) + length segments"
    and all: "\<forall>(Obs_part, rest) \<in> set segments. Obs_part \<noteq> []"
    by auto
  show ?case using len all sp seg by auto
qed

lemma sum_list_lengths_zip:
  assumes "length bs = length as"
  shows "sum_list (map (\<lambda>(a, rest). length a) (zip as bs)) = length (concat as)"
  using assms
proof (induction as arbitrary: bs)
  case Nil
  then show ?case by simp
next
  case (Cons a as)
  then obtain b bs' where "bs = b # bs'" by (cases bs) auto
  with Cons show ?case by simp
qed


lemma length_concat_nonempty:
  "\<forall>a \<in> set as. a \<noteq> [] \<Longrightarrow> length as \<le> length (concat as)"
proof (induction as)
  case Nil
  then show ?case by simp
next
  case (Cons a as)
  then have "a \<noteq> []" "length as \<le> length (concat as)" by auto
  then show ?case by (cases a) auto
qed

lemma fst_set_zip:
  assumes "length bs = length as" and "a \<in> set as"
  shows "\<exists>b. (a, b) \<in> set (zip as bs)"
proof -
  from assms(2) obtain i where i: "i < length as" "as ! i = a" by (auto simp: in_set_conv_nth)
  then have "(a, bs ! i) \<in> set (zip as bs)" using assms(1) by (auto simp: set_zip)
  then show ?thesis ..
qed

text \<open>C6. The list of theoretical values a later part selects from is the whole list:
  the arrays \<^verbatim>\<open>np.delete\<close> returns in lines 261-263 and 273-275 are not bound to a name.
  With observed periods \<open>[5, 0, 4.9]\<close> (a gap between two one-element parts), theoretical
  periods \<open>[5, 3]\<close> at orders \<open>[-2, -1]\<close> and the method \<^verbatim>\<open>highest_frequency\<close>, the first
  part selects the theoretical period 5 and the second part selects it again, although
  \<^verbatim>\<open>np.delete\<close> applied to the periods returns \<open>[3]\<close>. The same happens for frequencies
  \<open>[0.2, 0, 0.21]\<close> against theoretical frequencies \<open>[0.2, 0.5]\<close>, where \<^verbatim>\<open>np.delete\<close>
  returns \<open>[0.5]\<close>.\<close>

theorem chosen_pulsation_selected_again:
  "np_split (filter (\<lambda>x. x \<noteq> 0) [5, 0, 49 / 10 :: real]) (missing_puls_of [5, 0, 49 / 10])
     = [[5], [49 / 10]]
   \<and> assemble ''period'' ''highest_frequency'' [1 / 5, 1 / 3] (map (\<lambda>f. 1 / f) [1 / 5, 1 / 3])
         [- 2, - 1] [] (zip [[5], [49 / 10]] (zip [[1 / 10], [1 / 10]] [None, None]))
       = Inr [5, 0, 5]
   \<and> delete_at_or_above_last_chosen (map (\<lambda>f. 1 / f) [1 / 5, 1 / 3]) [5, 0] = Inr [3]
   \<and> np_split (filter (\<lambda>x. x \<noteq> 0) [1 / 5, 0, 21 / 100 :: real]) (missing_puls_of [1 / 5, 0, 21 / 100])
     = [[1 / 5], [21 / 100]]
   \<and> assemble ''frequency'' ''highest_frequency'' [1 / 5, 1 / 2] (map (\<lambda>f. 1 / f) [1 / 5, 1 / 2])
         [- 2, - 1] [] (zip [[1 / 5], [21 / 100]] (zip [[1 / 100], [1 / 100]] [None, None]))
       = Inr [1 / 5, 0, 1 / 5]
   \<and> delete_at_or_below_max_chosen [1 / 5, 1 / 2] [1 / 5, 0] = Inr [1 / 2]"
  by (simp add: chisq_longest_sequence_def best_pair_def chisqs_of_def np_where_def
        increase_or_decrease_def select_run_def score_def first_index_def align_def
        aligned_entry_def series_chi2_of_def generate_spacing_series_def np_broadcast_def upt_rec
        puls_series_from_given_puls_def select_part_def select_by_method_def
        delete_at_or_above_last_chosen_def delete_at_or_below_max_chosen_def np_delete_def
        rescale_rotation_and_select_theoretical_pattern_def scaled_freqs_def
        missing_puls_of_def np_split_def)

text \<open>C8. An observed pattern with a gap marker never yields a residual vector. The parts
  are split off the pattern without its markers; when every part is selected without an
  exception, the assembled list has one entry per observed value and one 0 per gap, so it
  is longer than the marker-free array \<open>Obs\<close> that the last line subtracts from it, and the
  subtraction raises ValueError. The lists of error parts and of amplitude values have one
  entry per part, as \<^verbatim>\<open>theoretical_pattern_from_dfrow\<close> passes them.\<close>

theorem gapped_pattern_residual_raises:
  assumes "0 \<in> set Obs0"
    and "length ObsErr_pattern_parts
           = length (np_split (filter (\<lambda>x. x \<noteq> 0) Obs0) (missing_puls_of Obs0))"
    and "length highest_amp_puls
           = length (np_split (filter (\<lambda>x. x \<noteq> 0) Obs0) (missing_puls_of Obs0))"
  shows "\<exists>e. rescale_rotation_and_select_theoretical_pattern params asymptotic_object
                estimated_rotation freqs_input orders (filter (\<lambda>x. x \<noteq> 0) Obs0) ObsErr
                (np_split (filter (\<lambda>x. x \<noteq> 0) Obs0) (missing_puls_of Obs0))
                ObsErr_pattern_parts which_observable method_build_series highest_amp_puls = Inl e"
proof -
  let ?Obs = "filter (\<lambda>x. x \<noteq> 0) Obs0"
  let ?parts = "np_split ?Obs (missing_puls_of Obs0)"
  let ?segments = "zip ?parts (zip ObsErr_pattern_parts highest_amp_puls)"
  have lz: "length (zip ObsErr_pattern_parts highest_amp_puls) = length ?parts"
    using assms(2,3) by simp
  have two: "2 \<le> length ?parts"
    using length_missing_puls_of [OF assms(1)]
    by (cases "missing_puls_of Obs0") (simp_all add: np_split_def length_np_split_from)
  show ?thesis
  proof (cases "scaled_freqs params asymptotic_object estimated_rotation freqs_input")
    case (Inl e)
    then show ?thesis by (simp add: rescale_rotation_and_select_theoretical_pattern_def)
  next
    case (Inr freqs)
    show ?thesis
    proof (cases "assemble which_observable method_build_series freqs (map (\<lambda>f. 1 / f) freqs) orders [] ?segments")
      case (Inl e)
      with Inr show ?thesis by (simp add: rescale_rotation_and_select_theoretical_pattern_def)
    next
      case out: (Inr output_pulsations)
      from assemble_Inr [OF out]
      have len: "length output_pulsations
                   = sum_list (map (\<lambda>(Obs_part, rest). length Obs_part) ?segments) + (length ?segments - 1)"
        and all: "\<forall>(Obs_part, rest) \<in> set ?segments. Obs_part \<noteq> []"
        by simp_all
      have "sum_list (map (\<lambda>(Obs_part, rest). length Obs_part) ?segments) = length (concat ?parts)"
        by (rule sum_list_lengths_zip [OF lz])
      then have sum: "sum_list (map (\<lambda>(Obs_part, rest). length Obs_part) ?segments) = length ?Obs"
        by (simp only: concat_np_split_missing)
      have "\<forall>a \<in> set ?parts. a \<noteq> []"
      proof
        fix a assume "a \<in> set ?parts"
        from fst_set_zip [OF lz this] obtain b where "(a, b) \<in> set ?segments" ..
        with all show "a \<noteq> []" by blast
      qed
      from length_concat_nonempty [OF this] have "length ?parts \<le> length ?Obs"
        by (simp only: concat_np_split_missing)
      with two have n: "2 \<le> length ?Obs" by simp
      have "length ?segments = length ?parts" using lz by simp
      with len sum two have l: "length output_pulsations = length ?Obs + (length ?parts - 1)" by simp
      have "length output_pulsations \<noteq> length ?Obs" "length ?Obs \<noteq> 1"
        "length output_pulsations \<noteq> 1"
        using l n two by linarith+
      then have "np_broadcast (-) output_pulsations ?Obs = Inl ValueError"
        by (simp only: np_broadcast_def if_False)
      with Inr out show ?thesis by (simp add: rescale_rotation_and_select_theoretical_pattern_def)
    qed
  qed
qed

theorem gapped_pattern_residual_raises_witness:
  "(0 :: real) \<in> set [9 / 10, 4 / 5, 0, 3 / 5, 1 / 2]
   \<and> np_split (filter (\<lambda>x. x \<noteq> 0) [9 / 10, 4 / 5, 0, 3 / 5, 1 / 2 :: real])
         (missing_puls_of [9 / 10, 4 / 5, 0, 3 / 5, 1 / 2])
       = [[9 / 10, 4 / 5], [3 / 5, 1 / 2]]
   \<and> assemble ''period'' ''chisq_longest_sequence''
         [1, 20 / 19, 20 / 17, 50 / 41, 10 / 7, 50 / 31, 20 / 11, 25 / 12]
         (map (\<lambda>f. 1 / f) [1, 20 / 19, 20 / 17, 50 / 41, 10 / 7, 50 / 31, 20 / 11, 25 / 12])
         [- 8, - 7, - 6, - 5, - 4, - 3, - 2, - 1] []
         (zip [[9 / 10, 4 / 5], [3 / 5, 1 / 2]]
            (zip [[1 / 100, 1 / 100], [1 / 100, 1 / 100]] [None, None]))
       = Inr [19 / 20, 17 / 20, 0, 31 / 50, 11 / 20]
   \<and> rescale_rotation_and_select_theoretical_pattern None None 1
         [1, 20 / 19, 20 / 17, 50 / 41, 10 / 7, 50 / 31, 20 / 11, 25 / 12]
         [- 8, - 7, - 6, - 5, - 4, - 3, - 2, - 1]
         (filter (\<lambda>x. x \<noteq> 0) [9 / 10, 4 / 5, 0, 3 / 5, 1 / 2])
         (filter (\<lambda>x. x \<noteq> 0) [1 / 100, 1 / 100, 0, 1 / 100, 1 / 100])
         (np_split (filter (\<lambda>x. x \<noteq> 0) [9 / 10, 4 / 5, 0, 3 / 5, 1 / 2])
            (missing_puls_of [9 / 10, 4 / 5, 0, 3 / 5, 1 / 2]))
         [[1 / 100, 1 / 100], [1 / 100, 1 / 100]]
         ''period'' ''chisq_longest_sequence'' [None, None]
       = Inl ValueError"
  using gapped_pattern_residual_raises
    [of "[9 / 10, 4 / 5, 0, 3 / 5, 1 / 2]" "[[1 / 100, 1 / 100], [1 / 100, 1 / 100]]" "[None, None]"
        None None 1 "[1, 20 / 19, 20 / 17, 50 / 41, 10 / 7, 50 / 31, 20 / 11, 25 / 12]"
        "[- 8, - 7, - 6, - 5, - 4, - 3, - 2, - 1]"
        "filter (\<lambda>x. x \<noteq> 0) [1 / 100, 1 / 100, 0, 1 / 100, 1 / 100]"
        "''period''" "''chisq_longest_sequence''"]
  by (simp add: chisq_longest_sequence_def best_pair_def chisqs_of_def np_where_def
        increase_or_decrease_def select_run_def score_def first_index_def align_def
        aligned_entry_def series_chi2_of_def generate_spacing_series_def np_broadcast_def upt_rec
        puls_series_from_given_puls_def select_part_def select_by_method_def
        delete_at_or_above_last_chosen_def delete_at_or_below_max_chosen_def np_delete_def
        rescale_rotation_and_select_theoretical_pattern_def scaled_freqs_def
        missing_puls_of_def np_split_def)

text \<open>C7. With no rescaling object, \<^verbatim>\<open>theoretical_pattern_from_dfrow\<close> never returns a
  row. Unless the configuration check of lines 125-127 ends the process first, the call of
  lines 132-133 binds \<^verbatim>\<open>False\<close> to the parameter \<^verbatim>\<open>highest_amp_puls\<close> (the argument for
  \<^verbatim>\<open>orders\<close> is missing, so every later argument is bound one parameter too early), and
  \<^verbatim>\<open>zip\<close> raises TypeError on it.\<close>

theorem fixed_rotation_call_raises:
  "theoretical_pattern_from_dfrow minimize summary_grid_row Obs ObsErr which_observable
       method_build_series highest_amp_puls None estimated_rotation
     = Some (Inl (if length (np_split (filter (\<lambda>x. x \<noteq> 0) Obs) (missing_puls_of Obs)) \<noteq> length highest_amp_puls
                     \<and> method_build_series = ''highest_amplitude''
                  then SystemExit else TypeError))"
  by (simp add: theoretical_pattern_from_dfrow_def Let_def)

theorem fixed_rotation_call_raises_witness:
  "theoretical_pattern_from_dfrow (\<lambda>objective initial. Inl ValueError)
       \<lparr>parameters = [(''rot'', 1), (''Z'', 2), (''Xc'', 3)],
        n_pg = [(- 2, Some (1 / 5)), (- 1, Some (1 / 3))]\<rparr>
       [5, 3] [1 / 10, 1 / 10] ''period'' ''highest_frequency'' [] None 1
     = Some (Inl TypeError)"
  using fixed_rotation_call_raises
    [of "\<lambda>objective initial. Inl ValueError"
        "\<lparr>parameters = [(''rot'', 1), (''Z'', 2), (''Xc'', 3)],
          n_pg = [(- 2, Some (1 / 5)), (- 1, Some (1 / 3))]\<rparr>"
        "[5, 3]" "[1 / 10, 1 / 10]" "''period''" "''highest_frequency''" "[]" 1]
  by simp

end
